theory Spec2Isabelle
  imports Main "HOL-Library.Sublist"
begin

section \<open>EventProxy (src/events/eventproxy.js): values, objects, heap\<close>

text \<open>
  The dispatcher of \<^verbatim>\<open>src/events/eventproxy.js\<close> is an object whose field
  \<^verbatim>\<open>_callbacks\<close> refers to a plain object; the properties of that object refer to
  arrays of callbacks. The methods mutate these objects in place, and \<^verbatim>\<open>trigger\<close>
  keeps references to them while callbacks run, so the model has an explicit heap:
  a list of objects, a reference being an index into it and allocation appending to it.

  Readings of the source that the model fixes:
  \<^item> line 169 reads \<^verbatim>\<open>list.splice(i, 1) {\<close>; the model takes the statement as
    \<^verbatim>\<open>list.splice(i, 1);\<close> followed by the block \<^verbatim>\<open>{ i--; l--; }\<close>;
  \<^item> \<^verbatim>\<open>debug\<close> is a free identifier of the module (a logger that the file does not
    define); it is taken as a function of the host that returns normally and does not
    touch the dispatcher;
  \<^item> a plain object \<^verbatim>\<open>{}\<close> inherits the members of \<^verbatim>\<open>Object.prototype\<close>, and the
    source reads \<^verbatim>\<open>calls[ev]\<close> without an own-property test, so the lookup of the
    model finds them (\<open>object_prototype\<close>);
  \<^item> a callback is a function value \<open>Fn f\<close>; what it does when called is given by a
    parameter \<open>beh\<close>, a function on the heap, so that a callback can call the
    dispatcher's own methods while \<^verbatim>\<open>trigger\<close> is running.
\<close>

type_synonym ref = nat

datatype jsval =
    Undefined
  | Null
  | Bool bool
  | Num int
  | Str string
  | Fn nat
  | Obj ref

text \<open>\<^verbatim>\<open>!v\<close> is false exactly on the truthy values.\<close>

fun truthy :: "jsval \<Rightarrow> bool" where
  "truthy Undefined = False"
| "truthy Null = False"
| "truthy (Bool b) = b"
| "truthy (Num n) = (n \<noteq> 0)"
| "truthy (Str s) = (s \<noteq> [])"
| "truthy (Fn f) = True"
| "truthy (Obj r) = True"

datatype error = TypeError | Thrown jsval

text \<open>
  \<open>Instance c f\<close> is an object made by \<^verbatim>\<open>new EventProxy()\<close> with its fields
  \<^verbatim>\<open>_callbacks\<close> and \<^verbatim>\<open>_fired\<close> (\<open>None\<close> while unset); \<open>Plain d\<close> is an object
  literal with its own properties in insertion order; \<open>Array xs\<close> is an array.
\<close>

datatype obj =
    Instance "ref option" "ref option"
  | Plain "(string \<times> ref) list"
  | Array "jsval list"

type_synonym heap = "obj list"

text \<open>One invocation made by \<^verbatim>\<open>trigger\<close>: the callback and the arguments it got.\<close>

type_synonym call = "jsval \<times> jsval list"

type_synonym behaviour = "nat \<Rightarrow> ref \<Rightarrow> jsval list \<Rightarrow> heap \<Rightarrow> error + heap"

definition ALL_EVENT :: string where
  "ALL_EVENT = ''__all__''"

subsection \<open>Property lookup on the registration object\<close>

text \<open>
  The members of \<^verbatim>\<open>Object.prototype\<close> with the \<^verbatim>\<open>length\<close> the loops of the source
  read from them: the parameter count of the built-in function; \<^verbatim>\<open>__proto__\<close> yields
  the prototype object itself, which has no \<^verbatim>\<open>length\<close>, so that \<^verbatim>\<open>i < l\<close> is
  false at once, as with 0. None of them has \<^verbatim>\<open>push\<close>, \<^verbatim>\<open>unshift\<close>,
  \<^verbatim>\<open>splice\<close> or an indexed element.
\<close>

definition object_prototype :: "string \<Rightarrow> nat option" where
  "object_prototype k = map_of
     [(''constructor'', 1), (''toString'', 0), (''toLocaleString'', 0), (''valueOf'', 0),
      (''hasOwnProperty'', 1), (''isPrototypeOf'', 1), (''propertyIsEnumerable'', 1),
      (''__defineGetter__'', 2), (''__defineSetter__'', 2),
      (''__lookupGetter__'', 1), (''__lookupSetter__'', 1), (''__proto__'', 0)] k"

datatype property = Absent | OwnList ref | Inherited nat

definition get_prop :: "(string \<times> ref) list \<Rightarrow> string \<Rightarrow> property" where
  "get_prop d k =
     (case map_of d k of
        Some a \<Rightarrow> OwnList a
      | None \<Rightarrow> (case object_prototype k of Some n \<Rightarrow> Inherited n | None \<Rightarrow> Absent))"

text \<open>
  \<^verbatim>\<open>calls[k] = a\<close>: an own property is replaced where it stands, a new one comes
  last. For the one name \<^verbatim>\<open>__proto__\<close> the assignment makes no own property in
  JavaScript: it makes \<open>a\<close> the prototype of the object. A later read of that name
  yields \<open>a\<close> either way, and \<open>set_prop\<close> records the assignment as an own property;
  what the object inherits afterwards is not followed (see \<open>well_formed\<close>).
\<close>

fun set_prop :: "(string \<times> ref) list \<Rightarrow> string \<Rightarrow> ref \<Rightarrow> (string \<times> ref) list" where
  "set_prop [] k a = [(k, a)]"
| "set_prop ((k', a') # d) k a =
     (if k' = k then (k, a) # d else (k', a') # set_prop d k a)"

subsection \<open>Heap access\<close>

definition callbacks_ref :: "heap \<Rightarrow> ref \<Rightarrow> ref option" where
  "callbacks_ref h this =
     (if this < length h then (case h ! this of Instance c f \<Rightarrow> c | _ \<Rightarrow> None) else None)"

definition plain_of :: "heap \<Rightarrow> ref \<Rightarrow> (string \<times> ref) list option" where
  "plain_of h c =
     (if c < length h then (case h ! c of Plain d \<Rightarrow> Some d | _ \<Rightarrow> None) else None)"

definition is_array :: "heap \<Rightarrow> ref \<Rightarrow> bool" where
  "is_array h a = (a < length h \<and> (case h ! a of Array xs \<Rightarrow> True | _ \<Rightarrow> False))"

definition array_of :: "heap \<Rightarrow> ref \<Rightarrow> jsval list" where
  "array_of h a =
     (if a < length h then (case h ! a of Array xs \<Rightarrow> xs | _ \<Rightarrow> []) else [])"

text \<open>An array is changed in place; a reference to anything else changes nothing.\<close>

definition upd_array :: "heap \<Rightarrow> ref \<Rightarrow> (jsval list \<Rightarrow> jsval list) \<Rightarrow> heap" where
  "upd_array h a g = (if is_array h a then h[a := Array (g (array_of h a))] else h)"

text \<open>\<^verbatim>\<open>list[i]\<close>: \<^verbatim>\<open>undefined\<close> beyond the end.\<close>

definition elem :: "heap \<Rightarrow> ref \<Rightarrow> nat \<Rightarrow> jsval" where
  "elem h a i = (if i < length (array_of h a) then array_of h a ! i else Undefined)"

text \<open>\<^verbatim>\<open>list.splice(i, 1)\<close>: nothing to remove beyond the end.\<close>

definition splice_at :: "heap \<Rightarrow> ref \<Rightarrow> nat \<Rightarrow> heap" where
  "splice_at h a i = upd_array h a (\<lambda>xs. take i xs @ drop (i + 1) xs)"

definition push :: "heap \<Rightarrow> ref \<Rightarrow> jsval \<Rightarrow> heap" where
  "push h a v = upd_array h a (\<lambda>xs. xs @ [v])"

definition unshift :: "heap \<Rightarrow> ref \<Rightarrow> jsval \<Rightarrow> heap" where
  "unshift h a v = upd_array h a (\<lambda>xs. v # xs)"

section \<open>The constructor (lines 40-46)\<close>

definition instanceof_EventProxy :: "heap \<Rightarrow> jsval \<Rightarrow> bool" where
  "instanceof_EventProxy h v =
     (case v of
        Obj r \<Rightarrow> r < length h \<and> (case h ! r of Instance c f \<Rightarrow> True | _ \<Rightarrow> False)
      | _ \<Rightarrow> False)"

text \<open>Lines 44-45, run on an instance: two fresh object literals, one per field.\<close>

definition init_fields :: "heap \<Rightarrow> ref \<Rightarrow> heap" where
  "init_fields h this =
     (let c = length h; h1 = h @ [Plain []];
          f = length h1; h2 = h1 @ [Plain []]
      in h2[this := Instance (Some c) (Some f)])"

text \<open>
  \<^verbatim>\<open>new EventProxy()\<close>: a fresh object with the prototype of the class, on which the
  body runs; the body returns nothing there, so the value is the object.
\<close>

definition new_EventProxy :: "heap \<Rightarrow> ref \<times> heap" where
  "new_EventProxy h = (let this = length h in (this, init_fields (h @ [Instance None None]) this))"

text \<open>The function called with a given \<^verbatim>\<open>this\<close>: its return value and the heap.\<close>

definition EventProxy :: "heap \<Rightarrow> jsval \<Rightarrow> jsval \<times> heap" where
  "EventProxy h this =
     (if \<not> instanceof_EventProxy h this
      then (let (r, h') = new_EventProxy h in (Obj r, h'))
      else (case this of Obj r \<Rightarrow> (Undefined, init_fields h r) | _ \<Rightarrow> (Undefined, h)))"

section \<open>Registration (lines 61-90)\<close>

text \<open>
  Line 63 and line 87: \<^verbatim>\<open>this._callbacks[ev] = this._callbacks[ev] || []\<close>. The value
  found is kept when there is one (an inherited member is truthy; storing it as an own
  property changes no later lookup, and the model does not record it); otherwise a
  fresh empty array becomes the property. The result is the value of the property.
\<close>

definition default_list :: "heap \<Rightarrow> ref \<Rightarrow> string \<Rightarrow> (property \<times> heap) option" where
  "default_list h c ev =
     (case plain_of h c of
        None \<Rightarrow> None
      | Some d \<Rightarrow>
          (case get_prop d ev of
             Absent \<Rightarrow>
               (let a = length h
                in Some (OwnList a, (h @ [Array []])[c := Plain (set_prop d ev a)]))
           | p \<Rightarrow> Some (p, h)))"

definition addListener :: "heap \<Rightarrow> ref \<Rightarrow> string \<Rightarrow> jsval \<Rightarrow> error + jsval \<times> heap" where
  "addListener h this ev callback =
     (case callbacks_ref h this of
        None \<Rightarrow> Inl TypeError
      | Some c \<Rightarrow>
          (case default_list h c ev of
             None \<Rightarrow> Inl TypeError
           | Some (OwnList a, h1) \<Rightarrow> Inr (Obj this, push h1 a callback)
           | Some (_, h1) \<Rightarrow> Inl TypeError))"

definition headbind :: "heap \<Rightarrow> ref \<Rightarrow> string \<Rightarrow> jsval \<Rightarrow> error + jsval \<times> heap" where
  "headbind h this ev callback =
     (case callbacks_ref h this of
        None \<Rightarrow> Inl TypeError
      | Some c \<Rightarrow>
          (case default_list h c ev of
             None \<Rightarrow> Inl TypeError
           | Some (OwnList a, h1) \<Rightarrow> Inr (Obj this, unshift h1 a callback)
           | Some (_, h1) \<Rightarrow> Inl TypeError))"

section \<open>Removal (lines 100-123)\<close>

text \<open>
  The methods are members of \<^verbatim>\<open>EventProxy.prototype\<close>: the receiver \<open>this\<close> is taken
  to be an instance, and a reference to any other object is answered with an error.
  \<^verbatim>\<open>!eventname\<close> holds when the argument is left out (\<open>None\<close>) or is the empty string.
\<close>

fun falsy_name :: "string option \<Rightarrow> bool" where
  "falsy_name None = True"
| "falsy_name (Some s) = (s = [])"

text \<open>Lines 112-118: \<open>l\<close> is the length read before the loop.\<close>

function tombstone_loop :: "jsval \<Rightarrow> nat \<Rightarrow> nat \<Rightarrow> jsval list \<Rightarrow> jsval list" where
  "tombstone_loop callback i l list =
     (if i < l
      then tombstone_loop callback (i + 1) l
             (if i < length list \<and> callback = list ! i then list[i := Null] else list)
      else list)"
  by pat_completeness auto
termination
  by (relation "measure (\<lambda>(callback, i, l, list). l - i)") auto

definition removeListener ::
  "heap \<Rightarrow> ref \<Rightarrow> string option \<Rightarrow> jsval \<Rightarrow> error + jsval \<times> heap" where
  "removeListener h this eventname callback =
     (if this < length h
      then (case h ! this of
          Instance calls f \<Rightarrow>
            (case (if falsy_name eventname then None else eventname) of
               None \<Rightarrow> Inr (Obj this, (h @ [Plain []])[this := Instance (Some (length h)) f])
             | Some ev \<Rightarrow>
                 (case calls of
                    None \<Rightarrow> Inl TypeError
                  | Some c \<Rightarrow>
                      (case plain_of h c of
                         None \<Rightarrow> Inl TypeError
                       | Some d \<Rightarrow>
                           (if \<not> truthy callback
                            then Inr (Obj this,
                                   (h @ [Array []])[c := Plain (set_prop d ev (length h))])
                            else (case get_prop d ev of
                                    OwnList a \<Rightarrow>
                                      Inr (Obj this,
                                        upd_array h a
                                          (\<lambda>list. tombstone_loop callback 0 (length list) list))
                                  | _ \<Rightarrow> Inr (Obj this, h))))))
        | _ \<Rightarrow> Inl TypeError)
      else Inl TypeError)"

text \<open>Lines 134-136.\<close>

definition removeAllListeners :: "heap \<Rightarrow> ref \<Rightarrow> string option \<Rightarrow> error + jsval \<times> heap" where
  "removeAllListeners h this event = removeListener h this event Undefined"

section \<open>The wildcard wrappers (lines 141-150)\<close>

text \<open>Both call the method and have no \<^verbatim>\<open>return\<close>: the value of the call is
  \<^verbatim>\<open>undefined\<close>.\<close>

definition bindForAll :: "heap \<Rightarrow> ref \<Rightarrow> jsval \<Rightarrow> error + jsval \<times> heap" where
  "bindForAll h this callback =
     (case addListener h this ALL_EVENT callback of
        Inl e \<Rightarrow> Inl e
      | Inr (r, h') \<Rightarrow> Inr (Undefined, h'))"

definition unbindForAll :: "heap \<Rightarrow> ref \<Rightarrow> jsval \<Rightarrow> error + jsval \<times> heap" where
  "unbindForAll h this callback =
     (case removeListener h this (Some ALL_EVENT) callback of
        Inl e \<Rightarrow> Inl e
      | Inr (r, h') \<Rightarrow> Inr (Undefined, h'))"

section \<open>Firing (lines 159-185)\<close>

text \<open>
  The inner loop, lines 167-181, on the array \<open>list\<close>: \<open>i\<close> and \<open>l\<close> are the loop
  variables. On a falsy slot the source removes it and decrements both, and the
  \<^verbatim>\<open>i++\<close> of the loop header brings \<open>i\<close> back; otherwise it calls the slot with
  \<^verbatim>\<open>callback.apply(this, args)\<close>, which is a \<^verbatim>\<open>TypeError\<close> on a truthy value
  that is no function. The calls made are recorded in order.
\<close>

function pass_loop ::
  "behaviour \<Rightarrow> ref \<Rightarrow> ref \<Rightarrow> jsval list \<Rightarrow> nat \<Rightarrow> nat \<Rightarrow> heap \<times> call list
     \<Rightarrow> error + heap \<times> call list" where
  "pass_loop beh this list args i l (h, tr) =
     (if i < l
      then (if \<not> truthy (elem h list i)
            then pass_loop beh this list args i (l - 1) (splice_at h list i, tr)
            else (case elem h list i of
                    Fn f \<Rightarrow>
                      (case beh f this args h of
                         Inl e \<Rightarrow> Inl e
                       | Inr h' \<Rightarrow>
                           pass_loop beh this list args (i + 1) l (h', tr @ [(Fn f, args)]))
                  | _ \<Rightarrow> Inl TypeError))
      else Inr (h, tr))"
  by pat_completeness auto
termination
  by (relation "measure (\<lambda>(beh, this, list, args, i, l, s). l - i)") auto

text \<open>
  One turn of \<^verbatim>\<open>while (both--)\<close>, lines 164-182, for the name \<open>ev\<close> on the object
  \<open>calls\<close>. An inherited member is truthy and is no array: with a positive
  \<^verbatim>\<open>length\<close> its element 0 is \<^verbatim>\<open>undefined\<close> and \<^verbatim>\<open>list.splice\<close> is no function.
\<close>

definition trigger_pass ::
  "behaviour \<Rightarrow> ref \<Rightarrow> ref \<Rightarrow> string \<Rightarrow> jsval list \<Rightarrow> heap \<times> call list
     \<Rightarrow> error + heap \<times> call list" where
  "trigger_pass beh this calls ev args s =
     (case plain_of (fst s) calls of
        None \<Rightarrow> Inl TypeError
      | Some d \<Rightarrow>
          (case get_prop d ev of
             Absent \<Rightarrow> Inr s
           | OwnList list \<Rightarrow> pass_loop beh this list args 0 (length (array_of (fst s) list)) s
           | Inherited n \<Rightarrow> (if 0 < n then Inl TypeError else Inr s)))"

text \<open>
  \<^verbatim>\<open>trigger(eventname, ...data)\<close>: \<^verbatim>\<open>arguments\<close> is \<open>Str eventname # data\<close>; the
  first turn has \<^verbatim>\<open>start = 1\<close>, the second \<^verbatim>\<open>start = 0\<close>. The result is the
  returned value, the heap and the calls made.
\<close>

definition trigger ::
  "behaviour \<Rightarrow> heap \<Rightarrow> ref \<Rightarrow> string \<Rightarrow> jsval list \<Rightarrow> error + jsval \<times> heap \<times> call list" where
  "trigger beh h this eventname data =
     (case callbacks_ref h this of
        None \<Rightarrow> Inl TypeError
      | Some calls \<Rightarrow>
          (case trigger_pass beh this calls eventname data (h, []) of
             Inl e \<Rightarrow> Inl e
           | Inr s1 \<Rightarrow>
               (case trigger_pass beh this calls ALL_EVENT (Str eventname # data) s1 of
                  Inl e \<Rightarrow> Inl e
                | Inr (h2, tr) \<Rightarrow> Inr (Obj this, h2, tr))))"

section \<open>Reading the state of a dispatcher\<close>

text \<open>
  What the statements below say about a heap \<open>h\<close> and a dispatcher \<open>this\<close>:
  \<open>callbacks_get\<close> is the value of \<^verbatim>\<open>this._callbacks[ev]\<close>, \<open>list_ref\<close> the array
  it refers to when it is an own property, \<open>registered\<close> the slots of that array
  (none when there is no such array), \<open>active\<close> the slots that are no tombstone.
\<close>

definition list_ref :: "heap \<Rightarrow> ref \<Rightarrow> string \<Rightarrow> ref option" where
  "list_ref h this ev =
     (case callbacks_ref h this of
        None \<Rightarrow> None
      | Some c \<Rightarrow>
          (case plain_of h c of
             None \<Rightarrow> None
           | Some d \<Rightarrow> (case get_prop d ev of OwnList a \<Rightarrow> Some a | _ \<Rightarrow> None)))"

definition registered :: "heap \<Rightarrow> ref \<Rightarrow> string \<Rightarrow> jsval list" where
  "registered h this ev = (case list_ref h this ev of Some a \<Rightarrow> array_of h a | None \<Rightarrow> [])"

definition active :: "jsval list \<Rightarrow> jsval list" where
  "active xs = filter truthy xs"

text \<open>
  The shape of the heap that the constructor sets up and the methods keep: the
  dispatcher has a registration object, whose own properties refer to arrays, one array
  per name. The name \<^verbatim>\<open>__proto__\<close> is no own property: the assignment
  \<^verbatim>\<open>calls['__proto__'] = []\<close> of line 108 replaces the prototype of the registration
  object, after which it inherits other members than \<open>object_prototype\<close> lists;
  \<open>set_prop\<close> records that assignment as an own property, and the statements that
  depend on what is inherited are made for well-formed heaps.
\<close>

definition well_formed :: "heap \<Rightarrow> ref \<Rightarrow> bool" where
  "well_formed h this =
     (case callbacks_ref h this of
        None \<Rightarrow> False
      | Some c \<Rightarrow>
          (case plain_of h c of
             None \<Rightarrow> False
           | Some d \<Rightarrow>
               list_all (is_array h) (map snd d) \<and> distinct (map snd d)
               \<and> ''__proto__'' \<notin> set (map fst d)))"

text \<open>No callback changes the heap when it returns (it may throw).\<close>

definition non_reentrant :: "behaviour \<Rightarrow> ref \<Rightarrow> bool" where
  "non_reentrant beh this = (\<forall>f args h h'. beh f this args h = Inr h' \<longrightarrow> h' = h)"

text \<open>\<open>own_list\<close> is \<open>list_ref\<close> on the registration object itself.\<close>

definition own_list :: "heap \<Rightarrow> ref \<Rightarrow> string \<Rightarrow> ref option" where
  "own_list h calls ev =
     (case plain_of h calls of
        None \<Rightarrow> None
      | Some d \<Rightarrow> (case get_prop d ev of OwnList a \<Rightarrow> Some a | _ \<Rightarrow> None))"

definition callbacks_get :: "heap \<Rightarrow> ref \<Rightarrow> string \<Rightarrow> property" where
  "callbacks_get h this ev =
     (case callbacks_ref h this of
        None \<Rightarrow> Absent
      | Some c \<Rightarrow> (case plain_of h c of None \<Rightarrow> Absent | Some d \<Rightarrow> get_prop d ev))"

text \<open>The name resolves to a member of \<^verbatim>\<open>Object.prototype\<close>.\<close>

definition inherited :: "heap \<Rightarrow> ref \<Rightarrow> string \<Rightarrow> bool" where
  "inherited h this ev = (case callbacks_get h this ev of Inherited n \<Rightarrow> True | _ \<Rightarrow> False)"

text \<open>Line 114-117 on one slot.\<close>

definition tombstone :: "jsval \<Rightarrow> jsval \<Rightarrow> jsval" where
  "tombstone callback x = (if callback = x then Null else x)"

text \<open>What a list holds when only functions were registered: a function or \<^verbatim>\<open>null\<close>.\<close>

definition slot :: "jsval \<Rightarrow> bool" where
  "slot v = (case v of Null \<Rightarrow> True | Fn f \<Rightarrow> True | _ \<Rightarrow> False)"

text \<open>
  A callback that removes callbacks while a fire is running: its body is the calls
  \<^verbatim>\<open>this.unbind(e, cb)\<close>, one for each \<open>cb\<close> of a list, in order, and \<open>remover rm e\<close>
  is the behaviour in which the callback \<open>f\<close> does so for the functions \<open>rm f\<close>.
\<close>

fun unbind_each :: "heap \<Rightarrow> ref \<Rightarrow> string \<Rightarrow> jsval list \<Rightarrow> error + heap" where
  "unbind_each h this e [] = Inr h"
| "unbind_each h this e (cb # cbs) =
     (case removeListener h this (Some e) cb of
        Inl err \<Rightarrow> Inl err
      | Inr (r, h') \<Rightarrow> unbind_each h' this e cbs)"

definition remover :: "(nat \<Rightarrow> nat list) \<Rightarrow> string \<Rightarrow> behaviour" where
  "remover rm e f this args h = unbind_each h this e (map Fn (rm f))"

text \<open>
  Callbacks that re-enter the dispatcher in two ways while \<open>e\<close> is fired: callback 1
  calls \<^verbatim>\<open>this.unbind(e, f1)\<close> on itself, callback 2 calls \<^verbatim>\<open>this.fire(e)\<close>, the
  callbacks of that inner fire doing nothing (callback 2 fires only the first time it is
  called); every other callback does nothing.
\<close>

definition unbind_self_and_refire :: "string \<Rightarrow> behaviour" where
  "unbind_self_and_refire e f this args h =
     (if f = 1 then unbind_each h this e [Fn 1]
      else if f = 2
      then (case trigger (\<lambda>f this args h. Inr h) h this e [] of
              Inl err \<Rightarrow> Inl err
            | Inr (r, h', tr) \<Rightarrow> Inr h')
      else Inr h)"

text \<open>A slot after \<^verbatim>\<open>unbind(e, Fn g)\<close> for every \<open>g\<close> of \<open>gs\<close>.\<close>

definition tombstones :: "nat list \<Rightarrow> jsval \<Rightarrow> jsval" where
  "tombstones gs x = (if x \<in> Fn ` set gs then Null else x)"

text \<open>No callback removes \<open>v\<close>.\<close>

definition never_removed :: "(nat \<Rightarrow> nat list) \<Rightarrow> jsval \<Rightarrow> bool" where
  "never_removed rm v = (\<forall>f. v \<notin> Fn ` set (rm f))"

section \<open>Lemmas about the heap and the operations\<close>

declare pass_loop.simps [simp del] tombstone_loop.simps [simp del]

subsection \<open>Arrays in the heap\<close>

lemma length_upd_array [simp]: "length (upd_array h a g) = length h"
  by (simp add: upd_array_def)

lemma callbacks_ref_upd_array [simp]: "callbacks_ref (upd_array h a g) this = callbacks_ref h this"
  by (auto simp: upd_array_def callbacks_ref_def is_array_def nth_list_update split: obj.splits)

lemma plain_of_upd_array [simp]: "plain_of (upd_array h a g) c = plain_of h c"
  by (auto simp: upd_array_def plain_of_def is_array_def nth_list_update split: obj.splits)

lemma is_array_upd_array [simp]: "is_array (upd_array h a g) b = is_array h b"
  by (auto simp: upd_array_def is_array_def nth_list_update split: obj.splits)

lemma array_of_upd_array:
  "array_of (upd_array h a g) b = (if b = a \<and> is_array h a then g (array_of h a) else array_of h b)"
  by (auto simp: upd_array_def array_of_def is_array_def nth_list_update split: obj.splits)

lemma upd_array_upd_array:
  "upd_array (upd_array h a g) a g' = upd_array h a (\<lambda>xs. g' (g xs))"
  by (auto simp: upd_array_def array_of_def is_array_def)

lemma upd_array_id: "g (array_of h a) = array_of h a \<Longrightarrow> upd_array h a g = h"
  by (auto simp: upd_array_def array_of_def is_array_def list_update_same_conv split: obj.splits)

subsection \<open>A fire whose callbacks leave the heap as it is\<close>

lemma pass_loop_quiet:
  assumes "non_reentrant beh this"
  shows "array_of h a = p @ s \<Longrightarrow>
         pass_loop beh this a args (length p) (length (p @ s)) (h, tr) = Inr (h', tr') \<Longrightarrow>
         h' = upd_array h a (\<lambda>xs. p @ active s) \<and> tr' = tr @ map (\<lambda>v. (v, args)) (active s)"
proof (induction s arbitrary: p h tr)
  case Nil
  then show ?case
    by (simp add: pass_loop.simps [of _ _ _ _ "length p" "length p"] active_def upd_array_id)
next
  case (Cons x s)
  have el: "elem h a (length p) = x"
    using Cons.prems(1) by (simp add: elem_def)
  show ?case
  proof (cases "truthy x")
    case False
    have arr: "is_array h a"
      using Cons.prems(1) by (auto simp: array_of_def is_array_def split: if_splits obj.splits)
    have sp: "array_of (splice_at h a (length p)) a = p @ s"
      using Cons.prems(1) arr by (simp add: splice_at_def array_of_upd_array)
    have run: "pass_loop beh this a args (length p) (length (p @ s)) (splice_at h a (length p), tr)
                 = Inr (h', tr')"
      using Cons.prems(2) False el
      by (simp add: pass_loop.simps [of _ _ _ _ "length p" "Suc (length p + length s)"])
    from Cons.IH [OF sp run] False show ?thesis
      by (simp add: splice_at_def upd_array_upd_array active_def)
  next
    case True
    have unf: "pass_loop beh this a args (length p) (length (p @ x # s)) (h, tr) =
        (case x of
           Fn f \<Rightarrow>
             (case beh f this args h of
                Inl e \<Rightarrow> Inl e
              | Inr h1 \<Rightarrow>
                  pass_loop beh this a args (length p + 1) (length (p @ x # s))
                    (h1, tr @ [(Fn f, args)]))
         | _ \<Rightarrow> Inl TypeError)"
      using True el by (subst pass_loop.simps) simp
    have eq: "(case x of
           Fn f \<Rightarrow>
             (case beh f this args h of
                Inl e \<Rightarrow> Inl e
              | Inr h1 \<Rightarrow>
                  pass_loop beh this a args (length p + 1) (length (p @ x # s))
                    (h1, tr @ [(Fn f, args)]))
         | _ \<Rightarrow> Inl TypeError) = Inr (h', tr')"
      using Cons.prems(2) by (simp only: unf)
    from eq obtain f where x: "x = Fn f"
      by (cases x) simp_all
    from eq obtain h1 where b: "beh f this args h = Inr h1"
      unfolding x by (cases "beh f this args h") simp_all
    have run: "pass_loop beh this a args (length p + 1) (length (p @ x # s))
                 (h1, tr @ [(Fn f, args)]) = Inr (h', tr')"
      using eq unfolding x by (simp add: b)
    from b assms have h1: "h1 = h" by (auto simp: non_reentrant_def)
    have arr: "array_of h a = (p @ [x]) @ s" using Cons.prems(1) by simp
    have run2: "pass_loop beh this a args (length (p @ [x])) (length ((p @ [x]) @ s))
                  (h, tr @ [(Fn f, args)]) = Inr (h', tr')"
      using run h1 by simp
    from Cons.IH [OF arr run2] x show ?thesis
      by (simp add: active_def)
  qed
qed

lemma active_active [simp]: "active (active xs) = active xs"
  by (simp add: active_def)

lemma pass_loop_quiet_all:
  assumes "non_reentrant beh this"
    and "pass_loop beh this a args 0 (length (array_of h a)) (h, tr) = Inr (h', tr')"
  shows "h' = upd_array h a active \<and> tr' = tr @ map (\<lambda>v. (v, args)) (active (array_of h a))"
proof -
  have "array_of h a = [] @ array_of h a" by simp
  from pass_loop_quiet [OF assms(1) this, of args tr h' tr'] assms(2)
  show ?thesis by (auto simp: upd_array_def)
qed

lemma trigger_pass_quiet:
  assumes "non_reentrant beh this"
    and "trigger_pass beh this c ev args (h, tr) = Inr (h', tr')"
  shows "h' = (case own_list h c ev of Some a \<Rightarrow> upd_array h a active | None \<Rightarrow> h)
         \<and> tr' = tr @ map (\<lambda>v. (v, args))
                    (active (case own_list h c ev of Some a \<Rightarrow> array_of h a | None \<Rightarrow> []))"
proof (cases "plain_of h c")
  case None
  with assms(2) show ?thesis by (simp add: trigger_pass_def)
next
  case (Some d)
  show ?thesis
  proof (cases "get_prop d ev")
    case Absent
    with Some assms(2) show ?thesis
      by (simp add: trigger_pass_def own_list_def active_def)
  next
    case (OwnList a)
    with Some assms(2)
    have "pass_loop beh this a args 0 (length (array_of h a)) (h, tr) = Inr (h', tr')"
      by (simp add: trigger_pass_def)
    from pass_loop_quiet_all [OF assms(1) this] Some OwnList show ?thesis
      by (simp add: own_list_def)
  next
    case (Inherited n)
    with Some assms(2) show ?thesis
      by (simp add: trigger_pass_def own_list_def active_def split: if_splits)
  qed
qed

lemma own_list_upd_array [simp]: "own_list (upd_array h a g) c ev = own_list h c ev"
  by (simp add: own_list_def)

lemma list_ref_own_list:
  "list_ref h this ev = (case callbacks_ref h this of None \<Rightarrow> None | Some c \<Rightarrow> own_list h c ev)"
  by (simp add: list_ref_def own_list_def split: option.splits)

lemma active_array_of_compact:
  "active (array_of (upd_array h a active) b) = active (array_of h b)"
  by (simp add: array_of_upd_array)

lemma array_of_not_array: "\<not> is_array h a \<Longrightarrow> array_of h a = []"
  by (auto simp: array_of_def is_array_def split: obj.splits)

lemma array_of_upd_array_other: "b \<noteq> a \<Longrightarrow> array_of (upd_array h a g) b = array_of h b"
  by (simp add: array_of_upd_array)

lemma array_of_compact_same: "array_of (upd_array h a active) a = active (array_of h a)"
  by (cases "is_array h a") (simp_all add: array_of_upd_array array_of_not_array active_def)

lemma array_of_compact_twice:
  "array_of (upd_array (upd_array h a active) b active) a = active (array_of h a)"
  by (cases "b = a") (simp_all add: array_of_upd_array_other array_of_compact_same)

lemma trigger_quiet:
  assumes nr: "non_reentrant beh this"
    and run: "trigger beh h this ev args = Inr (r, h', tr)"
  shows "r = Obj this"
    and "tr = map (\<lambda>v. (v, args)) (active (registered h this ev))
            @ map (\<lambda>v. (v, Str ev # args)) (active (registered h this ALL_EVENT))"
    and "registered h' this ev = active (registered h this ev)"
    and "registered h' this ALL_EVENT = active (registered h this ALL_EVENT)"
proof -
  from run obtain c where c: "callbacks_ref h this = Some c"
    by (auto simp: trigger_def split: option.splits)
  from run c obtain h1 tr1 where
    p1: "trigger_pass beh this c ev args (h, []) = Inr (h1, tr1)"
    by (auto simp: trigger_def split: sum.splits)
  from run c p1 have
    p2: "trigger_pass beh this c ALL_EVENT (Str ev # args) (h1, tr1) = Inr (h', tr)"
    and r: "r = Obj this"
    by (auto simp: trigger_def split: sum.splits)
  note q1 = trigger_pass_quiet [OF nr p1]
  note q2 = trigger_pass_quiet [OF nr p2]
  show "r = Obj this" by (rule r)
  have reg: "\<And>k e. registered k this e =
      (case callbacks_ref k this of None \<Rightarrow> [] | Some c \<Rightarrow>
         (case own_list k c e of Some a \<Rightarrow> array_of k a | None \<Rightarrow> []))"
    by (simp add: registered_def list_ref_own_list split: option.splits)
  have h1: "h1 = (case own_list h c ev of Some a \<Rightarrow> upd_array h a active | None \<Rightarrow> h)"
    using q1 by simp
  have ol1: "\<And>e. own_list h1 c e = own_list h c e"
    unfolding h1 by (simp split: option.splits)
  have act1: "\<And>b. active (array_of h1 b) = active (array_of h b)"
    unfolding h1 by (simp add: active_array_of_compact split: option.splits)
  have h': "h' = (case own_list h c ALL_EVENT of Some a \<Rightarrow> upd_array h1 a active | None \<Rightarrow> h1)"
    using q2 by (simp add: ol1)
  have cb': "callbacks_ref h' this = Some c"
    unfolding h' h1 using c by (simp split: option.splits)
  have ol': "\<And>e. own_list h' c e = own_list h c e"
    unfolding h' using ol1 by (simp split: option.splits)
  show "tr = map (\<lambda>v. (v, args)) (active (registered h this ev))
            @ map (\<lambda>v. (v, Str ev # args)) (active (registered h this ALL_EVENT))"
    using q1 q2 c by (simp add: reg ol1 act1 active_array_of_compact split: option.splits)
  have fin1: "\<And>a. own_list h c ev = Some a \<Longrightarrow> array_of h' a = active (array_of h a)"
    using h' h1
    by (simp add: array_of_compact_same array_of_compact_twice split: option.splits)
  have fin2: "\<And>a. own_list h c ALL_EVENT = Some a \<Longrightarrow> array_of h' a = active (array_of h a)"
    using h' act1 by (simp add: array_of_compact_same)
  show "registered h' this ev = active (registered h this ev)"
    using fin1 c cb' by (simp add: reg ol' active_def split: option.splits)
  show "registered h' this ALL_EVENT = active (registered h this ALL_EVENT)"
    using fin2 c cb' by (simp add: reg ol' active_def split: option.splits)
qed

subsection \<open>The registration object\<close>

lemma map_of_set_prop: "map_of (set_prop d k a) = (map_of d)(k \<mapsto> a)"
  by (induction d) (auto simp: fun_eq_iff)

lemma get_prop_set_prop:
  "get_prop (set_prop d k a) k' = (if k' = k then OwnList a else get_prop d k')"
  by (simp add: get_prop_def map_of_set_prop)

lemma well_formedD:
  assumes "well_formed h this"
  obtains c d where "callbacks_ref h this = Some c" "plain_of h c = Some d"
    "list_all (is_array h) (map snd d)" "distinct (map snd d)" "''__proto__'' \<notin> set (map fst d)"
  using assms by (auto simp: well_formed_def split: option.splits)

lemma get_prop_OwnList_mem: "get_prop d ev = OwnList a \<Longrightarrow> a \<in> set (map snd d)"
  by (auto simp: get_prop_def split: option.splits dest: map_of_SomeD intro: rev_image_eqI)

lemma own_is_array:
  "list_all (is_array h) (map snd d) \<Longrightarrow> get_prop d ev = OwnList a \<Longrightarrow> is_array h a"
  using get_prop_OwnList_mem [of d ev a] by (auto simp: list_all_iff)

text \<open>Allocation: the heap grows by one object at the end, then one cell is overwritten.\<close>

lemma callbacks_ref_alloc:
  "callbacks_ref h this = Some c \<Longrightarrow> plain_of h c' = Some d \<Longrightarrow>
   callbacks_ref ((h @ [ob])[c' := Plain d']) this = Some c"
  by (auto simp: callbacks_ref_def plain_of_def nth_append nth_list_update
           split: if_splits obj.splits)

lemma plain_of_alloc:
  "plain_of h c = Some d \<Longrightarrow> plain_of ((h @ [ob])[c := Plain d']) c = Some d'"
  by (auto simp: plain_of_def nth_append nth_list_update split: if_splits obj.splits)

lemma is_array_alloc:
  "plain_of h c = Some d \<Longrightarrow>
   is_array ((h @ [Array xs])[c := Plain d']) a = (is_array h a \<or> a = length h)"
  by (auto simp: plain_of_def is_array_def nth_append nth_list_update split: if_splits obj.splits)

lemma array_of_alloc:
  "plain_of h c = Some d \<Longrightarrow>
   array_of ((h @ [Array xs])[c := Plain d']) a =
     (if a = length h then xs else array_of h a)"
  by (auto simp: plain_of_def array_of_def nth_append nth_list_update split: if_splits obj.splits)

lemma is_array_lt: "is_array h a \<Longrightarrow> a < length h"
  by (simp add: is_array_def)

lemma registered_eq:
  "callbacks_ref h this = Some c \<Longrightarrow> plain_of h c = Some d \<Longrightarrow>
   registered h this ev = (case get_prop d ev of OwnList a \<Rightarrow> array_of h a | _ \<Rightarrow> [])"
  by (simp add: registered_def list_ref_def split: property.splits)

lemma set_prop_new: "map_of d k = None \<Longrightarrow> set_prop d k a = d @ [(k, a)]"
  by (induction d) (auto split: if_splits)

lemma get_prop_Absent: "get_prop d k = Absent \<Longrightarrow> map_of d k = None \<and> object_prototype k = None"
  by (simp add: get_prop_def split: option.splits)

lemma object_prototype_proto: "object_prototype ''__proto__'' = Some 0"
  by (simp add: object_prototype_def)

lemma well_formedI:
  "callbacks_ref h this = Some c \<Longrightarrow> plain_of h c = Some d \<Longrightarrow>
   list_all (is_array h) (map snd d) \<Longrightarrow> distinct (map snd d) \<Longrightarrow>
   ''__proto__'' \<notin> set (map fst d) \<Longrightarrow> well_formed h this"
  by (simp add: well_formed_def)

lemma well_formed_upd_array: "well_formed h this \<Longrightarrow> well_formed (upd_array h a g) this"
  by (erule well_formedD, rule well_formedI [where h = "upd_array h a g"]) (simp_all add: list_all_iff)

lemma registered_upd_array:
  assumes "well_formed h this"
  shows "registered (upd_array h a g) this ev =
           (if list_ref h this ev = Some a then g (registered h this ev) else registered h this ev)"
proof -
  from assms obtain c d where c: "callbacks_ref h this = Some c" and d: "plain_of h c = Some d"
    and arr: "list_all (is_array h) (map snd d)"
    by (rule well_formedD)
  show ?thesis
    using c d own_is_array [OF arr]
    by (auto simp: registered_def list_ref_def array_of_upd_array split: property.splits)
qed

lemma list_ref_upd_array [simp]: "list_ref (upd_array h a g) this ev = list_ref h this ev"
  by (simp add: list_ref_def cong: option.case_cong)

lemma callbacks_get_upd_array [simp]: "callbacks_get (upd_array h a g) this ev = callbacks_get h this ev"
  by (simp add: callbacks_get_def cong: option.case_cong)

lemma alloc_list:
  assumes c: "callbacks_ref h this = Some c" and d: "plain_of h c = Some d"
    and arr: "list_all (is_array h) (map snd d)" and dist: "distinct (map snd d)"
    and proto: "''__proto__'' \<notin> set (map fst d)"
    and abs: "get_prop d ev = Absent"
  defines "h1 \<equiv> (h @ [Array []])[c := Plain (set_prop d ev (length h))]"
  shows "callbacks_ref h1 this = Some c"
    and "plain_of h1 c = Some (d @ [(ev, length h)])"
    and "well_formed h1 this"
    and "list_ref h1 this ev = Some (length h)"
    and "registered h1 this ev = []"
    and "\<And>e. e \<noteq> ev \<Longrightarrow> list_ref h1 this e = list_ref h this e"
    and "\<And>e. e \<noteq> ev \<Longrightarrow> registered h1 this e = registered h this e"
proof -
  from abs have none: "map_of d ev = None" and np: "object_prototype ev = None"
    using get_prop_Absent by auto
  have sp: "set_prop d ev (length h) = d @ [(ev, length h)]"
    using none by (rule set_prop_new)
  show c1: "callbacks_ref h1 this = Some c"
    unfolding h1_def using c d by (rule callbacks_ref_alloc)
  show d1: "plain_of h1 c = Some (d @ [(ev, length h)])"
    unfolding h1_def sp [symmetric] using d by (rule plain_of_alloc)
  have lt: "\<And>a. a \<in> set (map snd d) \<Longrightarrow> a < length h"
    using arr by (auto simp: list_all_iff is_array_def)
  have ev_proto: "ev \<noteq> ''__proto__''"
    using np object_prototype_proto by auto
  have "list_all (is_array h1) (map snd (d @ [(ev, length h)]))"
    using arr unfolding h1_def by (auto simp: list_all_iff is_array_alloc [OF d])
  moreover have "distinct (map snd (d @ [(ev, length h)]))"
    using dist lt by auto
  moreover have "''__proto__'' \<notin> set (map fst (d @ [(ev, length h)]))"
    using proto ev_proto by auto
  ultimately show "well_formed h1 this"
    using c1 d1 by (rule well_formedI [rotated 2])
  have gp: "\<And>e. get_prop (d @ [(ev, length h)]) e = (if e = ev then OwnList (length h) else get_prop d e)"
    using get_prop_set_prop [of d ev "length h"] sp by simp
  show "list_ref h1 this ev = Some (length h)"
    using c1 d1 by (simp add: list_ref_def gp)
  show "registered h1 this ev = []"
    using c1 d1 by (simp add: registered_def list_ref_def gp h1_def array_of_alloc [OF d])
  show lr: "\<And>e. e \<noteq> ev \<Longrightarrow> list_ref h1 this e = list_ref h this e"
    using c1 d1 c d by (simp add: list_ref_def gp)
  show "\<And>e. e \<noteq> ev \<Longrightarrow> registered h1 this e = registered h this e"
  proof -
    fix e assume "e \<noteq> ev"
    from lr [OF this] have l: "list_ref h1 this e = list_ref h this e" .
    show "registered h1 this e = registered h this e"
    proof (cases "list_ref h this e")
      case None
      with l show ?thesis by (simp add: registered_def)
    next
      case (Some a)
      with c d have "get_prop d e = OwnList a"
        by (auto simp: list_ref_def split: property.splits)
      from own_is_array [OF arr this] have "a < length h" by (rule is_array_lt)
      with Some l show ?thesis
        by (simp add: registered_def h1_def array_of_alloc [OF d])
    qed
  qed
qed

lemma distinct_snd_key:
  "distinct (map snd d) \<Longrightarrow> map_of d k = Some a \<Longrightarrow> map_of d k' = Some a \<Longrightarrow> k = k'"
proof -
  assume dist: "distinct (map snd d)" and k: "map_of d k = Some a" and k': "map_of d k' = Some a"
  from dist have inj: "inj_on snd (set d)" by (simp add: distinct_map)
  from k k' have "(k, a) \<in> set d" "(k', a) \<in> set d" by (auto dest: map_of_SomeD)
  with inj have "(k, a) = (k', a)" by (intro inj_onD [OF inj]) simp_all
  then show ?thesis by simp
qed

lemma list_ref_inj:
  assumes "well_formed h this" and "list_ref h this e = Some a" and "list_ref h this e' = Some a"
  shows "e = e'"
proof -
  from assms(1) obtain c d where c: "callbacks_ref h this = Some c" and d: "plain_of h c = Some d"
    and dist: "distinct (map snd d)"
    by (rule well_formedD)
  from assms(2,3) c d have "map_of d e = Some a" "map_of d e' = Some a"
    by (auto simp: list_ref_def get_prop_def split: option.splits property.splits)
  with dist show ?thesis by (rule distinct_snd_key)
qed

lemma registered_upd_array_other:
  assumes "well_formed h this" and "list_ref h this ev = Some a" and "e \<noteq> ev"
  shows "registered (upd_array h a g) this e = registered h this e"
  using assms list_ref_inj [OF assms(1), of e a ev]
  by (auto simp: registered_upd_array)

lemma registered_upd_array_same:
  assumes "well_formed h this" and "list_ref h this ev = Some a"
  shows "registered (upd_array h a g) this ev = g (registered h this ev)"
  using assms by (simp add: registered_upd_array)

subsection \<open>Registration\<close>

lemma default_list_effect:
  assumes well_formed: "well_formed h this" and c: "callbacks_ref h this = Some c"
    and ni: "\<not> inherited h this ev"
  shows "\<exists>a h1. default_list h c ev = Some (OwnList a, h1) \<and> well_formed h1 this
           \<and> callbacks_ref h1 this = Some c
           \<and> list_ref h1 this ev = Some a
           \<and> registered h1 this ev = registered h this ev
           \<and> (\<forall>e. e \<noteq> ev \<longrightarrow> registered h1 this e = registered h this e)"
proof -
  from well_formed c obtain d where d: "plain_of h c = Some d"
    and arr: "list_all (is_array h) (map snd d)" and dist: "distinct (map snd d)"
    and proto: "''__proto__'' \<notin> set (map fst d)"
    by (auto elim: well_formedD)
  show ?thesis
  proof (cases "get_prop d ev")
    case Absent
    note al = alloc_list [OF c d arr dist proto Absent]
    have "default_list h c ev
            = Some (OwnList (length h), (h @ [Array []])[c := Plain (set_prop d ev (length h))])"
      using d Absent by (simp add: default_list_def Let_def)
    moreover have "registered h this ev = []"
      using c d Absent by (simp add: registered_eq)
    ultimately show ?thesis
      using al by auto
  next
    case (OwnList a)
    have "default_list h c ev = Some (OwnList a, h)"
      using d OwnList by (simp add: default_list_def)
    moreover have "list_ref h this ev = Some a"
      using c d OwnList by (simp add: list_ref_def)
    ultimately show ?thesis using well_formed c by auto
  next
    case (Inherited n)
    with ni c d show ?thesis by (simp add: inherited_def callbacks_get_def)
  qed
qed

lemma addListener_effect:
  assumes well_formed: "well_formed h this" and ni: "\<not> inherited h this ev"
  shows "\<exists>h'. addListener h this ev cb = Inr (Obj this, h') \<and> well_formed h' this
           \<and> registered h' this ev = registered h this ev @ [cb]
           \<and> (\<forall>e. e \<noteq> ev \<longrightarrow> registered h' this e = registered h this e)"
proof -
  from well_formed obtain c where c: "callbacks_ref h this = Some c" by (rule well_formedD)
  from default_list_effect [OF well_formed c ni] obtain a h1 where
    dl: "default_list h c ev = Some (OwnList a, h1)" and wf1: "well_formed h1 this"
    and lr: "list_ref h1 this ev = Some a"
    and same: "registered h1 this ev = registered h this ev"
    and other: "\<forall>e. e \<noteq> ev \<longrightarrow> registered h1 this e = registered h this e"
    by blast
  have "addListener h this ev cb = Inr (Obj this, upd_array h1 a (\<lambda>xs. xs @ [cb]))"
    using c dl by (simp add: addListener_def push_def)
  moreover have "well_formed (upd_array h1 a (\<lambda>xs. xs @ [cb])) this"
    using wf1 by (rule well_formed_upd_array)
  moreover have "registered (upd_array h1 a (\<lambda>xs. xs @ [cb])) this ev = registered h this ev @ [cb]"
    using registered_upd_array_same [OF wf1 lr] same by simp
  moreover have "\<forall>e. e \<noteq> ev \<longrightarrow>
      registered (upd_array h1 a (\<lambda>xs. xs @ [cb])) this e = registered h this e"
    using registered_upd_array_other [OF wf1 lr] other by simp
  ultimately show ?thesis by blast
qed

lemma headbind_effect:
  assumes well_formed: "well_formed h this" and ni: "\<not> inherited h this ev"
  shows "\<exists>h'. headbind h this ev cb = Inr (Obj this, h') \<and> well_formed h' this
           \<and> registered h' this ev = cb # registered h this ev
           \<and> (\<forall>e. e \<noteq> ev \<longrightarrow> registered h' this e = registered h this e)"
proof -
  from well_formed obtain c where c: "callbacks_ref h this = Some c" by (rule well_formedD)
  from default_list_effect [OF well_formed c ni] obtain a h1 where
    dl: "default_list h c ev = Some (OwnList a, h1)" and wf1: "well_formed h1 this"
    and lr: "list_ref h1 this ev = Some a"
    and same: "registered h1 this ev = registered h this ev"
    and other: "\<forall>e. e \<noteq> ev \<longrightarrow> registered h1 this e = registered h this e"
    by blast
  have "headbind h this ev cb = Inr (Obj this, upd_array h1 a (\<lambda>xs. cb # xs))"
    using c dl by (simp add: headbind_def unshift_def)
  moreover have "well_formed (upd_array h1 a (\<lambda>xs. cb # xs)) this"
    using wf1 by (rule well_formed_upd_array)
  moreover have "registered (upd_array h1 a (\<lambda>xs. cb # xs)) this ev = cb # registered h this ev"
    using registered_upd_array_same [OF wf1 lr] same by simp
  moreover have "\<forall>e. e \<noteq> ev \<longrightarrow>
      registered (upd_array h1 a (\<lambda>xs. cb # xs)) this e = registered h this e"
    using registered_upd_array_other [OF wf1 lr] other by simp
  ultimately show ?thesis by blast
qed

lemma inherited_upd_array [simp]: "inherited (upd_array h a g) this ev = inherited h this ev"
  by (simp add: inherited_def)

text \<open>Same failures, same returned value.\<close>

lemma headbind_addListener_outcome:
  "map_sum id fst (headbind h this ev cb) = map_sum id fst (addListener h this ev cb')"
  by (simp add: headbind_def addListener_def split: option.splits prod.splits property.splits)

subsection \<open>Removal\<close>

lemma tombstone_loop_from:
  "i \<le> length xs \<Longrightarrow>
   tombstone_loop cb i (length xs) xs = take i xs @ map (tombstone cb) (drop i xs)"
proof (induction "length xs - i" arbitrary: i xs)
  case 0
  then show ?case by (simp add: tombstone_loop.simps [of cb i])
next
  case (Suc n)
  then have lt: "i < length xs" by simp
  let ?xs = "if i < length xs \<and> cb = xs ! i then xs[i := Null] else xs"
  have len: "length ?xs = length xs" by simp
  have n: "n = length ?xs - (i + 1)" using Suc.hyps(2) unfolding len by arith
  have le: "i + 1 \<le> length ?xs" using lt by simp
  have "tombstone_loop cb i (length xs) xs = tombstone_loop cb (i + 1) (length ?xs) ?xs"
    using lt by (subst tombstone_loop.simps) simp
  also have "\<dots> = take (i + 1) ?xs @ map (tombstone cb) (drop (i + 1) ?xs)"
    using Suc.hyps(1) [OF n le] .
  also have "take (i + 1) ?xs = take i xs @ [tombstone cb (xs ! i)]"
    using lt by (simp add: take_Suc_conv_app_nth tombstone_def)
  also have "drop (i + 1) ?xs = drop (i + 1) xs"
    by simp
  finally show ?case
    using lt by (simp add: Cons_nth_drop_Suc [symmetric])
qed

lemma tombstone_loop_map:
  "tombstone_loop cb 0 (length xs) xs = map (tombstone cb) xs"
  using tombstone_loop_from [of 0 xs cb] by simp

lemma removeListener_tombstones:
  assumes c: "callbacks_ref h this = Some c" and d: "plain_of h c = Some d"
    and e: "e \<noteq> []" and cb: "truthy cb"
  shows "removeListener h this (Some e) cb =
           Inr (Obj this, case get_prop d e of
                            OwnList a \<Rightarrow> upd_array h a (map (tombstone cb))
                          | _ \<Rightarrow> h)"
proof -
  from c obtain f where "this < length h" "h ! this = Instance (Some c) f"
    by (auto simp: callbacks_ref_def split: if_splits obj.splits)
  then show ?thesis
    using d e cb
    by (simp add: removeListener_def tombstone_loop_map split: property.splits)
qed

lemma removeListener_reset:
  assumes c: "callbacks_ref h this = Some c" and en: "falsy_name eventname"
  shows "\<exists>h'. removeListener h this eventname cb = Inr (Obj this, h')
           \<and> callbacks_ref h' this = Some (length h) \<and> plain_of h' (length h) = Some []
           \<and> well_formed h' this \<and> (\<forall>e. list_ref h' this e = None \<and> registered h' this e = [])"
proof -
  from c obtain f where lt: "this < length h" and inst: "h ! this = Instance (Some c) f"
    by (auto simp: callbacks_ref_def split: if_splits obj.splits)
  let ?h = "(h @ [Plain []])[this := Instance (Some (length h)) f]"
  have r: "removeListener h this eventname cb = Inr (Obj this, ?h)"
    using lt inst en by (simp add: removeListener_def)
  have c': "callbacks_ref ?h this = Some (length h)"
    using lt by (simp add: callbacks_ref_def)
  have d': "plain_of ?h (length h) = Some []"
    using lt by (simp add: plain_of_def)
  have "well_formed ?h this"
    using c' d' by (simp add: well_formed_def)
  moreover have "\<forall>e. list_ref ?h this e = None \<and> registered ?h this e = []"
    using c' d' by (simp add: list_ref_def registered_def get_prop_def split: option.splits)
  ultimately show ?thesis using r c' d' by blast
qed

lemma removeListener_clears:
  assumes c: "callbacks_ref h this = Some c" and d: "plain_of h c = Some d"
    and arr: "list_all (is_array h) (map snd d)"
    and e: "e \<noteq> []" and cb: "\<not> truthy cb"
  defines "h' \<equiv> (h @ [Array []])[c := Plain (set_prop d e (length h))]"
  shows "removeListener h this (Some e) cb = Inr (Obj this, h')"
    and "list_ref h' this e = Some (length h)"
    and "registered h' this e = []"
    and "\<And>e'. e' \<noteq> e \<Longrightarrow> list_ref h' this e' = list_ref h this e'"
    and "\<And>e'. e' \<noteq> e \<Longrightarrow> registered h' this e' = registered h this e'"
proof -
  from c obtain f where lt: "this < length h" and inst: "h ! this = Instance (Some c) f"
    by (auto simp: callbacks_ref_def split: if_splits obj.splits)
  show "removeListener h this (Some e) cb = Inr (Obj this, h')"
    using lt inst d e cb by (simp add: removeListener_def h'_def)
  have c': "callbacks_ref h' this = Some c"
    unfolding h'_def using c d by (rule callbacks_ref_alloc)
  have d': "plain_of h' c = Some (set_prop d e (length h))"
    unfolding h'_def using d by (rule plain_of_alloc)
  show "list_ref h' this e = Some (length h)"
    using c' d' by (simp add: list_ref_def get_prop_set_prop)
  show "registered h' this e = []"
    using c' d' by (simp add: registered_eq get_prop_set_prop h'_def array_of_alloc [OF d])
  show lr: "\<And>e'. e' \<noteq> e \<Longrightarrow> list_ref h' this e' = list_ref h this e'"
    using c' d' c d by (simp add: list_ref_def get_prop_set_prop)
  show "\<And>e'. e' \<noteq> e \<Longrightarrow> registered h' this e' = registered h this e'"
  proof -
    fix e' assume ne: "e' \<noteq> e"
    show "registered h' this e' = registered h this e'"
    proof (cases "get_prop d e'")
      case (OwnList a)
      from own_is_array [OF arr this] have "a < length h" by (rule is_array_lt)
      with OwnList ne c d c' d' show ?thesis
        by (simp add: registered_eq get_prop_set_prop h'_def array_of_alloc [OF d])
    qed (use ne c d c' d' in \<open>simp_all add: registered_eq get_prop_set_prop\<close>)
  qed
qed

lemma active_truthy: "list_all truthy (active xs)"
  by (simp add: active_def list_all_iff)

lemma new_EventProxy_eq:
  "new_EventProxy h
     = (length h, h @ [Instance (Some (length h + 1)) (Some (length h + 2)), Plain [], Plain []])"
  by (simp add: new_EventProxy_def init_fields_def Let_def list_update_append)

lemma not_inherited_registered:
  assumes "registered h this e \<noteq> []"
  shows "\<not> inherited h this e"
  using assms
  by (auto simp: inherited_def callbacks_get_def registered_def list_ref_def
           split: option.splits property.splits)

subsection \<open>A fire whose callbacks remove callbacks\<close>

lemma tombstones_Nil [simp]: "tombstones [] = (\<lambda>x. x)"
  by (simp add: tombstones_def fun_eq_iff)

lemma tombstones_Cons: "tombstones gs (tombstone (Fn g) x) = tombstones (g # gs) x"
  by (auto simp: tombstones_def tombstone_def)

lemma unbind_each_tombstones:
  assumes e: "e \<noteq> []" and gp: "get_prop d e = OwnList a"
  shows "callbacks_ref h this = Some c \<Longrightarrow> plain_of h c = Some d \<Longrightarrow>
         unbind_each h this e (map Fn gs) = Inr (upd_array h a (map (tombstones gs)))"
proof (induction gs arbitrary: h)
  case Nil
  then show ?case by (simp add: upd_array_id)
next
  case (Cons g gs)
  have r: "removeListener h this (Some e) (Fn g)
             = Inr (Obj this, upd_array h a (map (tombstone (Fn g))))"
    using removeListener_tombstones [OF Cons.prems e, of "Fn g"] gp by simp
  have "unbind_each (upd_array h a (map (tombstone (Fn g)))) this e (map Fn gs)
          = Inr (upd_array (upd_array h a (map (tombstone (Fn g)))) a (map (tombstones gs)))"
    using Cons.prems by (intro Cons.IH) simp_all
  then show ?case
    using r by (simp add: upd_array_upd_array tombstones_Cons comp_def)
qed

lemma slot_cases: "slot v \<Longrightarrow> (v = Null \<Longrightarrow> P) \<Longrightarrow> (\<And>f. v = Fn f \<Longrightarrow> P) \<Longrightarrow> P"
  by (cases v) (simp_all add: slot_def)

lemma slot_Null [simp]: "slot Null" and slot_Fn [simp]: "slot (Fn f)"
  by (simp_all add: slot_def)

lemma subseq_active_map:
  assumes "\<And>x. T x = x \<or> T x = Null"
  shows "subseq (active (map T s)) (active s)"
proof (induction s)
  case Nil
  show ?case by (simp add: active_def)
next
  case (Cons y s)
  from assms [of y] show ?case
  proof
    assume "T y = y"
    with Cons show ?thesis by (simp add: active_def)
  next
    assume "T y = Null"
    with Cons show ?thesis by (auto simp: active_def intro: list_emb_Cons)
  qed
qed

lemma filter_active_map:
  assumes "\<And>x. T x = x \<or> T x = Null" and "\<And>x. K x \<Longrightarrow> T x = x"
  shows "filter K (active (map T s)) = filter K (active s)"
proof (induction s)
  case Nil
  show ?case by simp
next
  case (Cons y s)
  show ?case
  proof (cases "K y")
    case True
    with assms(2) Cons show ?thesis by (simp add: active_def)
  next
    case False
    from assms(1) [of y] False Cons show ?thesis by (auto simp: active_def)
  qed
qed

lemma list_all_slot_map:
  assumes "\<And>x. T x = x \<or> T x = Null"
  shows "list_all slot xs \<Longrightarrow> list_all slot (map T xs)"
proof (induction xs)
  case Nil
  show ?case by simp
next
  case (Cons x xs)
  from assms [of x] Cons show ?case by auto
qed

lemma pass_loop_tombstoning:
  fixes T :: "nat \<Rightarrow> jsval \<Rightarrow> jsval"
  assumes step: "\<And>f k. I k \<Longrightarrow>
              \<exists>k'. beh f this args k = Inr k' \<and> I k' \<and> array_of k' b = map (T f) (array_of k b)"
    and spl: "\<And>k i. I k \<Longrightarrow> I (splice_at k b i)"
    and Tn: "\<And>f x. T f x = x \<or> T f x = Null"
    and TK: "\<And>f x. K x \<Longrightarrow> T f x = x"
  shows "I h \<Longrightarrow> array_of h b = p @ s \<Longrightarrow> list_all slot (p @ s) \<Longrightarrow>
         \<exists>h' cs. pass_loop beh this b args (length p) (length (p @ s)) (h, tr)
                    = Inr (h', tr @ map (\<lambda>v. (v, args)) cs)
            \<and> I h' \<and> subseq cs (active s) \<and> filter K cs = filter K (active s)
            \<and> list_all slot (array_of h' b)
            \<and> subseq (active (array_of h' b)) (active (p @ s))
            \<and> filter K (active (array_of h' b)) = filter K (active (p @ s))"
proof (induction n \<equiv> "length s" arbitrary: s p h tr)
  case 0
  then show ?case
    by (simp add: pass_loop.simps [of _ _ _ _ "length p" "length p"] active_def)
next
  case (Suc n s0)
  then obtain x s where s0: "s0 = x # s" and n: "n = length s"
    by (cases s0) auto
  note IH = Suc.hyps(1)
  have pI: "I h" using Suc.prems(1) .
  have pA: "array_of h b = p @ x # s" using Suc.prems(2) s0 by simp
  have pS: "list_all slot (p @ x # s)" using Suc.prems(3) s0 by simp
  have el: "elem h b (length p) = x"
    using pA by (simp add: elem_def)
  have sx: "slot x" using pS by simp
  have "\<exists>h' cs. pass_loop beh this b args (length p) (length (p @ x # s)) (h, tr)
                    = Inr (h', tr @ map (\<lambda>v. (v, args)) cs)
            \<and> I h' \<and> subseq cs (active (x # s)) \<and> filter K cs = filter K (active (x # s))
            \<and> list_all slot (array_of h' b)
            \<and> subseq (active (array_of h' b)) (active (p @ x # s))
            \<and> filter K (active (array_of h' b)) = filter K (active (p @ x # s))"
  proof (cases "truthy x")
    case False
    have arr: "is_array h b"
      using pA by (auto simp: array_of_def is_array_def split: if_splits obj.splits)
    have sp: "array_of (splice_at h b (length p)) b = p @ s"
      using pA arr by (simp add: splice_at_def array_of_upd_array)
    have unf: "pass_loop beh this b args (length p) (length (p @ x # s)) (h, tr)
                 = pass_loop beh this b args (length p) (length (p @ s))
                     (splice_at h b (length p), tr)"
      using False el by (subst pass_loop.simps) simp
    from IH [OF n spl [OF pI] sp, of tr] pS
    obtain h' cs where
      "pass_loop beh this b args (length p) (length (p @ s)) (splice_at h b (length p), tr)
         = Inr (h', tr @ map (\<lambda>v. (v, args)) cs)"
      "I h'" "subseq cs (active s)" "filter K cs = filter K (active s)"
      "list_all slot (array_of h' b)"
      "subseq (active (array_of h' b)) (active (p @ s))"
      "filter K (active (array_of h' b)) = filter K (active (p @ s))"
      by auto
    with False unf show ?thesis
      by (intro exI [of _ h'] exI [of _ cs]) (simp add: active_def)
  next
    case True
    with sx obtain f where x: "x = Fn f"
      by (auto elim: slot_cases)
    from step [OF pI, of f] obtain h1 where
      b: "beh f this args h = Inr h1" and I1: "I h1"
      and a1: "array_of h1 b = map (T f) (array_of h b)"
      by blast
    have unf: "pass_loop beh this b args (length p) (length (p @ x # s)) (h, tr)
                 = pass_loop beh this b args (length p + 1) (length (p @ x # s))
                     (h1, tr @ [(Fn f, args)])"
      using el x b by (subst pass_loop.simps) simp
    let ?p = "map (T f) p @ [T f x]" and ?s = "map (T f) s"
    have arr: "array_of h1 b = ?p @ ?s"
      using a1 pA by simp
    have sl: "list_all slot (?p @ ?s)"
      using list_all_slot_map [of "T f", OF Tn pS] by simp
    have n': "n = length ?s" using n by simp
    from IH [OF n' I1 arr sl, of "tr @ [(Fn f, args)]"]
    obtain h' cs where
      run: "pass_loop beh this b args (length ?p) (length (?p @ ?s)) (h1, tr @ [(Fn f, args)])
         = Inr (h', (tr @ [(Fn f, args)]) @ map (\<lambda>v. (v, args)) cs)"
      and I': "I h'" and sub: "subseq cs (active ?s)"
      and fil: "filter K cs = filter K (active ?s)"
      and sl': "list_all slot (array_of h' b)"
      and sa: "subseq (active (array_of h' b)) (active (?p @ ?s))"
      and fin: "filter K (active (array_of h' b)) = filter K (active (?p @ ?s))"
      by blast
    have run': "pass_loop beh this b args (length p) (length (p @ x # s)) (h, tr)
                  = Inr (h', tr @ map (\<lambda>v. (v, args)) (x # cs))"
      using run unf x by simp
    have "subseq cs (active s)"
      using sub subseq_active_map [of "T f" s, OF Tn] by (rule subseq_order.trans)
    then have sub': "subseq (x # cs) (active (x # s))"
      using True by (simp add: active_def)
    have fil': "filter K (x # cs) = filter K (active (x # s))"
      using fil filter_active_map [of "T f" K s, OF Tn TK] True by (simp add: active_def)
    have ps: "?p @ ?s = map (T f) (p @ x # s)" by simp
    then have fin': "filter K (active (array_of h' b)) = filter K (active (p @ x # s))"
      using fin filter_active_map [of "T f" K "p @ x # s", OF Tn TK] by simp
    have sa': "subseq (active (array_of h' b)) (active (p @ x # s))"
      using sa subseq_active_map [of "T f" "p @ x # s", OF Tn] unfolding ps
      by (rule subseq_order.trans)
    from run' I' sub' fil' sl' sa' fin' show ?thesis by blast
  qed
  then show ?case unfolding s0 .
qed

lemma tombstones_cases: "tombstones gs x = x \<or> tombstones gs x = Null"
  by (simp add: tombstones_def)

lemma count_list_filter: "K v \<Longrightarrow> count_list (filter K xs) v = count_list xs v"
  by (induction xs) auto

lemma count_list_active: "truthy v \<Longrightarrow> count_list (active xs) v = count_list xs v"
  unfolding active_def by (rule count_list_filter)

lemma object_prototype_ALL_EVENT: "object_prototype ALL_EVENT = None"
  by (simp add: object_prototype_def ALL_EVENT_def)

lemma trigger_remover:
  assumes wf: "well_formed h this" and e: "e \<noteq> []"
    and lr: "list_ref h this e = Some a"
    and sl1: "list_all slot (registered h this e)"
    and sl2: "list_all slot (registered h this ALL_EVENT)"
    and K: "\<And>f x. K x \<Longrightarrow> x \<notin> Fn ` set (rm f)"
  shows "\<exists>h' cs ws. trigger (remover rm e) h this e args
             = Inr (Obj this, h',
                 map (\<lambda>v. (v, args)) cs @ map (\<lambda>v. (v, Str e # args)) ws)
           \<and> subseq cs (active (registered h this e))
           \<and> filter K cs = filter K (active (registered h this e))
           \<and> subseq ws (active (registered h this ALL_EVENT))
           \<and> filter K ws = filter K (active (registered h this ALL_EVENT))"
proof -
  from wf obtain c d where c: "callbacks_ref h this = Some c" and d: "plain_of h c = Some d"
    and arr: "list_all (is_array h) (map snd d)"
    by (rule well_formedD)
  from lr c d have gp: "get_prop d e = OwnList a"
    by (auto simp: list_ref_def split: property.splits)
  from own_is_array [OF arr gp] have isa: "is_array h a" .
  have reg_e: "registered h this e = array_of h a"
    using c d gp by (simp add: registered_eq)
  define I1 where "I1 k \<longleftrightarrow> callbacks_ref k this = Some c \<and> plain_of k c = Some d
      \<and> is_array k a \<and> (\<forall>b. b \<noteq> a \<longrightarrow> array_of k b = array_of h b)" for k
  define I2 where "I2 k \<longleftrightarrow> callbacks_ref k this = Some c \<and> plain_of k c = Some d" for k
  let ?beh = "remover rm e"
  let ?T = "\<lambda>f. tombstones (rm f)"
  have beh: "?beh f this args' k = Inr (upd_array k a (map (?T f)))"
    if "callbacks_ref k this = Some c" "plain_of k c = Some d" for f args' k
    unfolding remover_def using e gp that by (rule unbind_each_tombstones)
  have step1: "\<exists>k'. ?beh f this args' k = Inr k' \<and> I1 k'
                  \<and> array_of k' a = map (?T f) (array_of k a)"
    if "I1 k" for f k args'
    using that beh [of k f args']
    by (auto simp: I1_def array_of_upd_array)
  have spl1: "I1 (splice_at k a i)" if "I1 k" for k i
    using that by (auto simp: I1_def splice_at_def array_of_upd_array)
  have TK: "?T f x = x" if "K x" for f x
    using K [OF that, of f] by (simp add: tombstones_def)
  have I1h: "I1 h" using c d isa by (simp add: I1_def)
  from pass_loop_tombstoning [of I1 ?beh this args a ?T K h "[]" "array_of h a" "[]",
         OF step1 spl1 tombstones_cases TK I1h] sl1 reg_e
  obtain h1 cs where
    run1: "pass_loop ?beh this a args 0 (length (array_of h a)) (h, [])
             = Inr (h1, map (\<lambda>v. (v, args)) cs)"
    and I1h1: "I1 h1" and sub1: "subseq cs (active (array_of h a))"
    and fil1: "filter K cs = filter K (active (array_of h a))"
    and sl1': "list_all slot (array_of h1 a)"
    and sa1: "subseq (active (array_of h1 a)) (active (array_of h a))"
    and fin1: "filter K (active (array_of h1 a)) = filter K (active (array_of h a))"
    by auto
  have p1: "trigger_pass ?beh this c e args (h, []) = Inr (h1, map (\<lambda>v. (v, args)) cs)"
    using d gp run1 by (simp add: trigger_pass_def)
  from I1h1 have d1: "plain_of h1 c = Some d" by (simp add: I1_def)
  have "\<exists>h' ws. trigger_pass ?beh this c ALL_EVENT (Str e # args)
                    (h1, map (\<lambda>v. (v, args)) cs)
                  = Inr (h', map (\<lambda>v. (v, args)) cs @ map (\<lambda>v. (v, Str e # args)) ws)
           \<and> subseq ws (active (registered h this ALL_EVENT))
           \<and> filter K ws = filter K (active (registered h this ALL_EVENT))"
  proof (cases "get_prop d ALL_EVENT")
    case Absent
    have "registered h this ALL_EVENT = []"
      using c d Absent by (simp add: registered_eq)
    then show ?thesis
      using d1 Absent
      by (intro exI [of _ h1] exI [of _ "[]"]) (simp add: trigger_pass_def active_def)
  next
    case (Inherited n)
    then show ?thesis
      using object_prototype_ALL_EVENT by (simp add: get_prop_def split: option.splits)
  next
    case (OwnList aw)
    have reg_w: "registered h this ALL_EVENT = array_of h aw"
      using c d OwnList by (simp add: registered_eq)
    have tp: "trigger_pass ?beh this c ALL_EVENT (Str e # args) (h1, tr0)
                = pass_loop ?beh this aw (Str e # args) 0 (length (array_of h1 aw)) (h1, tr0)"
      for tr0
      using d1 OwnList by (simp add: trigger_pass_def)
    show ?thesis
    proof (cases "aw = a")
      case True
      from pass_loop_tombstoning [of I1 ?beh this "Str e # args" a ?T K h1 "[]" "array_of h1 a"
             "map (\<lambda>v. (v, args)) cs", OF step1 spl1 tombstones_cases TK I1h1] sl1'
      obtain h' ws where
        run2: "pass_loop ?beh this a (Str e # args) 0 (length (array_of h1 a))
                 (h1, map (\<lambda>v. (v, args)) cs)
               = Inr (h', map (\<lambda>v. (v, args)) cs @ map (\<lambda>v. (v, Str e # args)) ws)"
        and sub2: "subseq ws (active (array_of h1 a))"
        and fil2: "filter K ws = filter K (active (array_of h1 a))"
        by auto
      have sw: "subseq ws (active (array_of h a))"
        using sub2 sa1 by (rule subseq_order.trans)
      have fk: "filter K ws = filter K (active (array_of h a))"
        using fil2 fin1 by simp
      show ?thesis
        unfolding tp reg_w True
        by (intro exI [of _ h'] exI [of _ ws] conjI run2 sw fk)
    next
      case False
      have step2: "\<exists>k'. ?beh f this (Str e # args) k = Inr k' \<and> I2 k'
                      \<and> array_of k' aw = map (\<lambda>x. x) (array_of k aw)"
        if "I2 k" for f k
        using that beh [of k f "Str e # args"] False
        by (auto simp: I2_def array_of_upd_array)
      have spl2: "I2 (splice_at k aw i)" if "I2 k" for k i
        using that by (simp add: I2_def splice_at_def)
      have I2h1: "I2 h1" using I1h1 by (simp add: I1_def I2_def)
      have same: "array_of h1 aw = array_of h aw"
        using I1h1 False by (simp add: I1_def)
      have sl2': "list_all slot ([] @ array_of h1 aw)"
        using sl2 reg_w same by simp
      from pass_loop_tombstoning [of I2 ?beh this "Str e # args" aw "\<lambda>f x. x" "\<lambda>x. True"
             h1 "[]" "array_of h1 aw" "map (\<lambda>v. (v, args)) cs", OF step2 spl2 _ _ I2h1 _ sl2']
      obtain h' ws where
        run2: "pass_loop ?beh this aw (Str e # args) 0 (length (array_of h1 aw))
                 (h1, map (\<lambda>v. (v, args)) cs)
               = Inr (h', map (\<lambda>v. (v, args)) cs @ map (\<lambda>v. (v, Str e # args)) ws)"
        and ws: "ws = active (array_of h1 aw)"
        by auto
      from run2 ws same show ?thesis
        unfolding tp reg_w by (intro exI [of _ h'] exI [of _ ws]) simp
    qed
  qed
  then obtain h' ws where
    p2: "trigger_pass ?beh this c ALL_EVENT (Str e # args) (h1, map (\<lambda>v. (v, args)) cs)
           = Inr (h', map (\<lambda>v. (v, args)) cs @ map (\<lambda>v. (v, Str e # args)) ws)"
    and sub2: "subseq ws (active (registered h this ALL_EVENT))"
    and fil2: "filter K ws = filter K (active (registered h this ALL_EVENT))"
    by blast
  have t: "trigger ?beh h this e args
          = Inr (Obj this, h', map (\<lambda>v. (v, args)) cs @ map (\<lambda>v. (v, Str e # args)) ws)"
    using c p1 p2 by (simp add: trigger_def)
  show ?thesis
    unfolding reg_e
    by (intro exI [of _ h'] exI [of _ cs] exI [of _ ws] conjI t sub1 fil1 sub2 fil2)
qed

subsection \<open>A fire whose callbacks return\<close>

lemma pass_loop_quiet_returns:
  assumes nr: "non_reentrant beh this"
    and tot: "\<And>f a k. \<exists>k'. beh f this a k = Inr k'"
    and sl: "list_all slot (array_of h b)"
  shows "\<exists>h' tr'. pass_loop beh this b args 0 (length (array_of h b)) (h, tr) = Inr (h', tr')"
proof -
  have step: "\<exists>k'. beh f this args k = Inr k' \<and> True
                \<and> array_of k' b = map (\<lambda>x. x) (array_of k b)" for f k
  proof -
    from tot [of f args k] obtain k' where k': "beh f this args k = Inr k'" ..
    with nr have "k' = k" by (auto simp: non_reentrant_def)
    with k' show ?thesis by simp
  qed
  from pass_loop_tombstoning [of "\<lambda>k. True" beh this args b "\<lambda>f x. x" "\<lambda>x. True"
         h "[]" "array_of h b" tr, OF step] sl
  show ?thesis by auto
qed

lemma list_all_slot_active: "list_all slot xs \<Longrightarrow> list_all slot (active xs)"
  by (simp add: active_def list_all_iff)

lemma trigger_quiet_returns:
  assumes nr: "non_reentrant beh this"
    and tot: "\<And>f a k. \<exists>k'. beh f this a k = Inr k'"
    and wf: "well_formed h this" and ni: "\<not> inherited h this ev"
    and sl1: "list_all slot (registered h this ev)"
    and sl2: "list_all slot (registered h this ALL_EVENT)"
  shows "\<exists>h' tr. trigger beh h this ev args = Inr (Obj this, h', tr)"
proof -
  from wf obtain c d where c: "callbacks_ref h this = Some c" and d: "plain_of h c = Some d"
    by (rule well_formedD)
  have "\<exists>h1 tr1. trigger_pass beh this c ev args (h, []) = Inr (h1, tr1)"
  proof (cases "get_prop d ev")
    case Absent
    with d show ?thesis by (simp add: trigger_pass_def)
  next
    case (OwnList a)
    with c d sl1 have "list_all slot (array_of h a)" by (simp add: registered_eq)
    from pass_loop_quiet_returns [OF nr tot this, of args "[]"] d OwnList
    show ?thesis by (simp add: trigger_pass_def)
  next
    case (Inherited n)
    with ni c d show ?thesis by (simp add: inherited_def callbacks_get_def)
  qed
  then obtain h1 tr1 where p1: "trigger_pass beh this c ev args (h, []) = Inr (h1, tr1)"
    by blast
  from trigger_pass_quiet [OF nr p1]
  have h1: "h1 = (case own_list h c ev of Some a \<Rightarrow> upd_array h a active | None \<Rightarrow> h)"
    by simp
  have d1: "plain_of h1 c = Some d"
    unfolding h1 using d by (simp split: option.splits)
  have "\<exists>h2 tr2. trigger_pass beh this c ALL_EVENT (Str ev # args) (h1, tr1) = Inr (h2, tr2)"
  proof (cases "get_prop d ALL_EVENT")
    case Absent
    with d1 show ?thesis by (simp add: trigger_pass_def)
  next
    case (OwnList aw)
    with c d sl2 have sw: "list_all slot (array_of h aw)" by (simp add: registered_eq)
    have "list_all slot (array_of h1 aw)"
      unfolding h1 using sw list_all_slot_active [OF sw]
      by (auto simp: array_of_upd_array split: option.splits)
    from pass_loop_quiet_returns [OF nr tot this, of "Str ev # args" tr1] d1 OwnList
    show ?thesis by (simp add: trigger_pass_def)
  next
    case (Inherited n)
    then show ?thesis
      using object_prototype_ALL_EVENT by (simp add: get_prop_def split: option.splits)
  qed
  then obtain h2 tr2 where
    p2: "trigger_pass beh this c ALL_EVENT (Str ev # args) (h1, tr1) = Inr (h2, tr2)"
    by blast
  from c p1 p2 show ?thesis by (simp add: trigger_def)
qed

subsection \<open>Well-formedness is kept\<close>

text \<open>
  The methods keep a dispatcher well-formed: registration does (\<open>addListener_effect\<close>,
  \<open>headbind_effect\<close>), and so do removal, for a name other than \<^verbatim>\<open>__proto__\<close>, and a
  fire whose callbacks leave the heap as it is.
\<close>

lemma set_prop_mem: "p \<in> set (set_prop d k a) \<Longrightarrow> p = (k, a) \<or> p \<in> set d"
  by (induction d) (auto split: if_splits)

lemma set_prop_snd: "set (map snd (set_prop d k a)) \<subseteq> insert a (set (map snd d))"
  using set_prop_mem [of _ d k a] by force

lemma set_prop_fst: "set (map fst (set_prop d k a)) \<subseteq> insert k (set (map fst d))"
  using set_prop_mem [of _ d k a] by force

lemma set_prop_distinct:
  "distinct (map snd d) \<Longrightarrow> a \<notin> set (map snd d) \<Longrightarrow> distinct (map snd (set_prop d k a))"
proof (induction d)
  case Nil
  show ?case by simp
next
  case (Cons p d)
  obtain k' a' where p: "p = (k', a')" by (cases p)
  show ?case
  proof (cases "k' = k")
    case True
    with Cons.prems p show ?thesis by simp
  next
    case False
    have "a' \<notin> set (map snd (set_prop d k a))"
      using set_prop_snd [of d k a] Cons.prems p by auto
    with False Cons p show ?thesis by simp
  qed
qed

lemma well_formed_removeListener:
  assumes wf: "well_formed h this" and np: "eventname \<noteq> Some ''__proto__''"
    and r: "removeListener h this eventname cb = Inr (r, h')"
  shows "well_formed h' this"
proof (cases "falsy_name eventname")
  case True
  from wf obtain c where c: "callbacks_ref h this = Some c" by (rule well_formedD)
  from removeListener_reset [OF c True, of cb] r show ?thesis by auto
next
  case False
  then obtain e where en: "eventname = Some e" and e: "e \<noteq> []"
    by (cases eventname) auto
  from wf obtain c d where c: "callbacks_ref h this = Some c" and d: "plain_of h c = Some d"
    and arr: "list_all (is_array h) (map snd d)" and dist: "distinct (map snd d)"
    and proto: "''__proto__'' \<notin> set (map fst d)"
    by (rule well_formedD)
  show ?thesis
  proof (cases "truthy cb")
    case True
    from removeListener_tombstones [OF c d e True] r en wf show ?thesis
      by (auto simp: well_formed_upd_array split: property.splits)
  next
    case False
    let ?d = "set_prop d e (length h)"
    let ?h = "(h @ [Array []])[c := Plain ?d]"
    from removeListener_clears(1) [OF c d arr e False] r en have h': "h' = ?h" by simp
    have lt: "\<And>a. a \<in> set (map snd d) \<Longrightarrow> a < length h"
      using arr by (auto simp: list_all_iff is_array_def)
    have c': "callbacks_ref ?h this = Some c"
      using c d by (rule callbacks_ref_alloc)
    have d': "plain_of ?h c = Some ?d"
      using d by (rule plain_of_alloc)
    have "a \<in> set (map snd d) \<or> a = length h" if "a \<in> set (map snd ?d)" for a
      using that set_prop_snd [of d e "length h"] by auto
    then have "list_all (is_array ?h) (map snd ?d)"
      using arr unfolding list_all_iff is_array_alloc [OF d] by blast
    moreover have "distinct (map snd ?d)"
      using dist lt by (intro set_prop_distinct) auto
    moreover have "''__proto__'' \<notin> set (map fst ?d)"
      using proto np en set_prop_fst [of d e "length h"] by auto
    ultimately show ?thesis
      unfolding h' using c' d' by (rule well_formedI [rotated 2])
  qed
qed

lemma well_formed_trigger:
  assumes nr: "non_reentrant beh this" and wf: "well_formed h this"
    and run: "trigger beh h this ev args = Inr (r, h', tr)"
  shows "well_formed h' this"
proof -
  from run obtain c where c: "callbacks_ref h this = Some c"
    by (auto simp: trigger_def split: option.splits)
  from run c obtain h1 tr1 where
    p1: "trigger_pass beh this c ev args (h, []) = Inr (h1, tr1)"
    by (auto simp: trigger_def split: sum.splits)
  from run c p1 have
    p2: "trigger_pass beh this c ALL_EVENT (Str ev # args) (h1, tr1) = Inr (h', tr)"
    by (auto simp: trigger_def split: sum.splits)
  from trigger_pass_quiet [OF nr p1] wf have "well_formed h1 this"
    by (auto simp: well_formed_upd_array split: option.splits)
  with trigger_pass_quiet [OF nr p2] show ?thesis
    by (auto simp: well_formed_upd_array split: option.splits)
qed

section \<open>Properties of firing: order and arguments\<close>

text \<open>
  C1. A dispatcher with one wildcard subscriber, made by \<^verbatim>\<open>new EventProxy()\<close> and
  \<^verbatim>\<open>bindForAll(f4)\<close>, and \<^verbatim>\<open>fire('constructor', ...args)\<close>: the first turn of
  lines 164-169 reads the function that the registration object inherits under that
  name, whose \<^verbatim>\<open>length\<close> is 1 and whose element 0 is \<^verbatim>\<open>undefined\<close>, and fails at
  \<^verbatim>\<open>list.splice\<close>. The fire ends there with a \<^verbatim>\<open>TypeError\<close>, whatever the
  callbacks do and whatever the arguments are: the wildcard subscriber, which is
  registered and no tombstone, is not called.
\<close>

theorem C1_fire_inherited_name_throws:
  "bindForAll (snd (new_EventProxy [])) (fst (new_EventProxy [])) (Fn 4)
     = Inr (Undefined,
         [Instance (Some 1) (Some 2), Plain [(''__all__'', 3)], Plain [], Array [Fn 4]])
   \<and> registered
       [Instance (Some 1) (Some 2), Plain [(''__all__'', 3)], Plain [], Array [Fn 4]]
       0 ALL_EVENT = [Fn 4]
   \<and> trigger beh
       [Instance (Some 1) (Some 2), Plain [(''__all__'', 3)], Plain [], Array [Fn 4]]
       0 ''constructor'' args = Inl TypeError"
proof -
  have a: "bindForAll (snd (new_EventProxy [])) (fst (new_EventProxy [])) (Fn 4)
     = Inr (Undefined,
         [Instance (Some 1) (Some 2), Plain [(''__all__'', 3)], Plain [], Array [Fn 4]])"
    by code_simp
  have b: "registered
       [Instance (Some 1) (Some 2), Plain [(''__all__'', 3)], Plain [], Array [Fn 4]]
       0 ALL_EVENT = [Fn 4]"
    by code_simp
  have c: "trigger beh
       [Instance (Some 1) (Some 2), Plain [(''__all__'', 3)], Plain [], Array [Fn 4]]
       0 ''constructor'' args = Inl TypeError"
    by (simp add: trigger_def callbacks_ref_def trigger_pass_def plain_of_def get_prop_def
          object_prototype_def)
  show ?thesis by (intro conjI a b c)
qed

text \<open>
  Outside the inherited names the order and the arguments are as follows, for
  callbacks that leave the heap as it is. When the fire returns, the calls it made
  are, in this order: every slot that is no tombstone of the list registered under
  \<open>eventName\<close>, in list order, each with exactly \<open>args\<close>; then every slot that is no
  tombstone of the wildcard list, in list order, each with \<open>Str eventName # args\<close>.
  And it does return, with the dispatcher as its value, on a well-formed dispatcher
  whose two lists hold functions and tombstones, for a name that has a list or resolves
  to nothing, when every callback returns.
\<close>

lemma fire_direct_then_wildcard:
  assumes "non_reentrant beh this"
  shows "(\<forall>r h' tr. trigger beh h this eventName args = Inr (r, h', tr) \<longrightarrow>
            tr = map (\<lambda>cb. (cb, args)) (active (registered h this eventName))
                 @ map (\<lambda>cb. (cb, Str eventName # args)) (active (registered h this ALL_EVENT)))
       \<and> (well_formed h this \<and> \<not> inherited h this eventName
            \<and> list_all slot (registered h this eventName)
            \<and> list_all slot (registered h this ALL_EVENT)
            \<and> (\<forall>f a k. \<exists>k'. beh f this a k = Inr k')
          \<longrightarrow> (\<exists>h'. trigger beh h this eventName args
                  = Inr (Obj this, h',
                      map (\<lambda>cb. (cb, args)) (active (registered h this eventName))
                      @ map (\<lambda>cb. (cb, Str eventName # args))
                          (active (registered h this ALL_EVENT)))))"
proof (intro conjI allI impI)
  fix r h' tr
  assume "trigger beh h this eventName args = Inr (r, h', tr)"
  with assms show "tr = map (\<lambda>cb. (cb, args)) (active (registered h this eventName))
                 @ map (\<lambda>cb. (cb, Str eventName # args)) (active (registered h this ALL_EVENT))"
    by (rule trigger_quiet(2))
next
  assume a: "well_formed h this \<and> \<not> inherited h this eventName
            \<and> list_all slot (registered h this eventName)
            \<and> list_all slot (registered h this ALL_EVENT)
            \<and> (\<forall>f a k. \<exists>k'. beh f this a k = Inr k')"
  then have tot: "\<And>f a k. \<exists>k'. beh f this a k = Inr k'" by blast
  from trigger_quiet_returns [OF assms tot, of h eventName args] a
  obtain h' tr where t: "trigger beh h this eventName args = Inr (Obj this, h', tr)"
    by blast
  from trigger_quiet(2) [OF assms t] t
  show "\<exists>h'. trigger beh h this eventName args
                  = Inr (Obj this, h',
                      map (\<lambda>cb. (cb, args)) (active (registered h this eventName))
                      @ map (\<lambda>cb. (cb, Str eventName # args))
                          (active (registered h this ALL_EVENT)))"
    by (intro exI [of _ h']) simp
qed

lemma fire_direct_then_wildcard_example:
  "non_reentrant (\<lambda>f this args h. Inr h) 0
   \<and> trigger (\<lambda>f this args h. Inr h)
       [Instance (Some 1) (Some 2), Plain [(''x'', 3), (''__all__'', 4)], Plain [],
        Array [Fn 3, Null, Fn 2], Array [Fn 9]] 0 ''x'' [Num 42]
     = Inr (Obj 0,
         [Instance (Some 1) (Some 2), Plain [(''x'', 3), (''__all__'', 4)], Plain [],
          Array [Fn 3, Fn 2], Array [Fn 9]],
         [(Fn 3, [Num 42]), (Fn 2, [Num 42]), (Fn 9, [Str ''x'', Num 42])])
   \<and> [(Fn 3, [Num 42]), (Fn 2, [Num 42]), (Fn 9, [Str ''x'', Num 42])]
     = map (\<lambda>cb. (cb, [Num 42]))
         (active (registered
           [Instance (Some 1) (Some 2), Plain [(''x'', 3), (''__all__'', 4)], Plain [],
            Array [Fn 3, Null, Fn 2], Array [Fn 9]] 0 ''x''))
       @ map (\<lambda>cb. (cb, [Str ''x'', Num 42]))
         (active (registered
           [Instance (Some 1) (Some 2), Plain [(''x'', 3), (''__all__'', 4)], Plain [],
            Array [Fn 3, Null, Fn 2], Array [Fn 9]] 0 ALL_EVENT))
   \<and> well_formed
       [Instance (Some 1) (Some 2), Plain [(''x'', 3), (''__all__'', 4)], Plain [],
        Array [Fn 3, Null, Fn 2], Array [Fn 9]] 0
   \<and> \<not> inherited
       [Instance (Some 1) (Some 2), Plain [(''x'', 3), (''__all__'', 4)], Plain [],
        Array [Fn 3, Null, Fn 2], Array [Fn 9]] 0 ''x''
   \<and> list_all slot (registered
       [Instance (Some 1) (Some 2), Plain [(''x'', 3), (''__all__'', 4)], Plain [],
        Array [Fn 3, Null, Fn 2], Array [Fn 9]] 0 ''x'')
   \<and> list_all slot (registered
       [Instance (Some 1) (Some 2), Plain [(''x'', 3), (''__all__'', 4)], Plain [],
        Array [Fn 3, Null, Fn 2], Array [Fn 9]] 0 ALL_EVENT)
   \<and> (\<forall>f a k. \<exists>k'. ((\<lambda>f this args h. Inr h) :: behaviour) f 0 a k = Inr k')"
proof -
  let ?H = "[Instance (Some 1) (Some 2), Plain [(''x'', 3), (''__all__'', 4)], Plain [],
        Array [Fn 3, Null, Fn 2], Array [Fn 9]]"
  let ?beh = "(\<lambda>f this args h. Inr h) :: behaviour"
  have nr: "non_reentrant ?beh 0"
    by (simp add: non_reentrant_def)
  have run: "trigger ?beh ?H 0 ''x'' [Num 42]
     = Inr (Obj 0,
         [Instance (Some 1) (Some 2), Plain [(''x'', 3), (''__all__'', 4)], Plain [],
          Array [Fn 3, Fn 2], Array [Fn 9]],
         [(Fn 3, [Num 42]), (Fn 2, [Num 42]), (Fn 9, [Str ''x'', Num 42])])"
    by code_simp
  note tr = fire_direct_then_wildcard [OF nr, of ?H "''x''" "[Num 42]",
      THEN conjunct1, rule_format, OF run]
  have wf: "well_formed ?H 0" by code_simp
  have ni: "\<not> inherited ?H 0 ''x''" by code_simp
  have s1: "list_all slot (registered ?H 0 ''x'')" by code_simp
  have s2: "list_all slot (registered ?H 0 ALL_EVENT)" by code_simp
  have tot: "\<forall>f a k. \<exists>k'. ?beh f 0 a k = Inr k'"
    by blast
  show ?thesis
    by (intro conjI nr run tr wf ni s1 s2 tot)
qed

section \<open>Properties of registration\<close>

text \<open>
  C2. \<^verbatim>\<open>register(e, cb)\<close> on a new dispatcher with the event name
  \<^verbatim>\<open>constructor\<close> and a function: the lookup of line 63 finds the member that the
  registration object inherits, no array is made, and \<^verbatim>\<open>push\<close> of line 64 is no
  function of that member.
\<close>

theorem C2_register_inherited_name_throws:
  "addListener (snd (new_EventProxy [])) (fst (new_EventProxy [])) ''constructor'' (Fn 0)
     = Inl TypeError"
  by code_simp

text \<open>
  For the other names the claim holds: the callback comes last in the list of the
  name, which is made when there is none, the dispatcher is returned, and a callback
  registered twice is called twice.
\<close>

lemma register_appends:
  assumes "well_formed h this" and "\<not> inherited h this e"
  shows "\<exists>h'. addListener h this e cb = Inr (Obj this, h')
           \<and> registered h' this e = registered h this e @ [cb]"
  using addListener_effect [OF assms] by blast

lemma register_twice_fires_twice:
  assumes wf: "well_formed h this" and ni: "\<not> inherited h this e"
    and nr: "non_reentrant beh this"
    and r1: "addListener h this e (Fn f) = Inr (r, h1)"
    and r2: "addListener h1 this e (Fn f) = Inr (r', h2)"
    and fire: "trigger beh h2 this e args = Inr (r'', h3, tr)"
    and none: "Fn f \<notin> set (registered h this e)"
  shows "count_list tr (Fn f, args) = 2"
proof -
  from addListener_effect [OF wf ni, of "Fn f"] r1
  have wf1: "well_formed h1 this" and reg1: "registered h1 this e = registered h this e @ [Fn f]"
    by auto
  have ni1: "\<not> inherited h1 this e"
    using r1 reg1 wf1
    by (auto simp: inherited_def callbacks_get_def registered_def list_ref_def
             split: option.splits property.splits)
  from addListener_effect [OF wf1 ni1, of "Fn f"] r2 reg1
  have reg2: "registered h2 this e = registered h this e @ [Fn f, Fn f]"
    by auto
  have len: "length args \<noteq> length (Str e # args)" by simp
  have "count_list (map (\<lambda>cb. (cb, args)) xs) (Fn f, args) = count_list xs (Fn f)" for xs
    by (induction xs) auto
  moreover have "count_list (map (\<lambda>cb. (cb, Str e # args)) xs) (Fn f, args) = 0" for xs
    by (induction xs) auto
  moreover have "count_list (active (registered h this e)) (Fn f) = 0"
    using none by (simp add: active_def)
  ultimately show ?thesis
    unfolding trigger_quiet(2) [OF nr fire] reg2
    by (simp add: active_def)
qed

section \<open>Properties of removal\<close>



section \<open>Tombstones during a pass\<close>

text \<open>
  C4. In a pass, a slot that is falsy is not called: the loop removes it from the
  array at once and goes on at the same index (first conjunct, for any callbacks).
  After a fire that returns, with callbacks that leave the heap as it is, the two lists
  traversed hold their former slots without the tombstones, in the former order, and
  every call made was to a slot that is no tombstone.
\<close>

theorem C4_tombstones_skipped_and_removed:
  assumes "non_reentrant beh this"
    and "trigger beh h this eventName args = Inr (r, h', tr)"
  shows "(\<forall>k list i l tr0. i < l \<and> \<not> truthy (elem k list i) \<longrightarrow>
            pass_loop beh this list args i l (k, tr0)
              = pass_loop beh this list args i (l - 1) (splice_at k list i, tr0))
       \<and> registered h' this eventName = filter truthy (registered h this eventName)
       \<and> registered h' this ALL_EVENT = filter truthy (registered h this ALL_EVENT)
       \<and> list_all truthy (registered h' this eventName)
       \<and> list_all truthy (registered h' this ALL_EVENT)
       \<and> list_all truthy (map fst tr)"
proof -
  have step: "\<forall>k list i l tr0. i < l \<and> \<not> truthy (elem k list i) \<longrightarrow>
            pass_loop beh this list args i l (k, tr0)
              = pass_loop beh this list args i (l - 1) (splice_at k list i, tr0)"
    by (auto simp: pass_loop.simps [of beh this _ args])
  note q = trigger_quiet [OF assms]
  have tr: "map fst tr = active (registered h this eventName) @ active (registered h this ALL_EVENT)"
    unfolding q(2) by (simp add: comp_def)
  have "list_all truthy (map fst tr)"
    unfolding tr by (auto simp: list_all_iff active_def)
  moreover have "list_all truthy (registered h' this eventName)"
    "list_all truthy (registered h' this ALL_EVENT)"
    unfolding q(3,4) by (rule active_truthy)+
  ultimately show ?thesis
    using step q(3,4) unfolding active_def by blast
qed

theorem C4_tombstones_skipped_and_removed_witness:
  "non_reentrant (\<lambda>f this args h. Inr h) 0
   \<and> trigger (\<lambda>f this args h. Inr h)
       [Instance (Some 1) (Some 2), Plain [(''x'', 3), (''__all__'', 4)], Plain [],
        Array [Null, Fn 3, Null, Null, Fn 2], Array [Fn 9, Null]] 0 ''x'' []
     = Inr (Obj 0,
         [Instance (Some 1) (Some 2), Plain [(''x'', 3), (''__all__'', 4)], Plain [],
          Array [Fn 3, Fn 2], Array [Fn 9]],
         [(Fn 3, []), (Fn 2, []), (Fn 9, [Str ''x''])])
   \<and> registered
        [Instance (Some 1) (Some 2), Plain [(''x'', 3), (''__all__'', 4)], Plain [],
          Array [Fn 3, Fn 2], Array [Fn 9]] 0 ''x'' = [Fn 3, Fn 2]
   \<and> list_all truthy (map fst [(Fn 3, []), (Fn 2, []), (Fn 9, [Str ''x''])])"
proof -
  have nr: "non_reentrant (\<lambda>f this args h. Inr h) 0"
    by (simp add: non_reentrant_def)
  have run: "trigger (\<lambda>f this args h. Inr h)
       [Instance (Some 1) (Some 2), Plain [(''x'', 3), (''__all__'', 4)], Plain [],
        Array [Null, Fn 3, Null, Null, Fn 2], Array [Fn 9, Null]] 0 ''x'' []
     = Inr (Obj 0,
         [Instance (Some 1) (Some 2), Plain [(''x'', 3), (''__all__'', 4)], Plain [],
          Array [Fn 3, Fn 2], Array [Fn 9]],
         [(Fn 3, []), (Fn 2, []), (Fn 9, [Str ''x''])])"
    by code_simp
  have reg: "registered
        [Instance (Some 1) (Some 2), Plain [(''x'', 3), (''__all__'', 4)], Plain [],
          Array [Null, Fn 3, Null, Null, Fn 2], Array [Fn 9, Null]] 0 ''x''
        = [Null, Fn 3, Null, Null, Fn 2]"
    by code_simp
  from C4_tombstones_skipped_and_removed [OF nr run] nr run reg show ?thesis
    by simp
qed

section \<open>Removal from inside a callback\<close>

text \<open>
  C5. Four callbacks are registered for \<^verbatim>\<open>x\<close>, in the order 1, 2, 3, 4; callback 1
  removes itself with \<^verbatim>\<open>unbind('x', f1)\<close> and callback 2 fires \<^verbatim>\<open>x\<close> again
  (\<open>unbind_self_and_refire\<close>). The pass of \<^verbatim>\<open>fire('x')\<close> calls 1, 2 and 4: the
  inner fire passes over the tombstone of callback 1 and splices it out (line 169),
  which moves callback 3 to the index the outer pass has already left, and the outer
  pass goes on with its own \<open>i\<close> and \<open>l\<close>. Callback 3 is still registered after the
  fire and was not called by the pass. The last conjunct is the call of callback 2
  alone, on the heap in which the outer pass makes it.
\<close>

theorem C5_refire_skips_registered_callback:
  "trigger (unbind_self_and_refire ''x'')
     [Instance (Some 1) (Some 2), Plain [(''x'', 3)], Plain [],
      Array [Fn 1, Fn 2, Fn 3, Fn 4]] 0 ''x'' []
     = Inr (Obj 0,
         [Instance (Some 1) (Some 2), Plain [(''x'', 3)], Plain [], Array [Fn 2, Fn 3, Fn 4]],
         [(Fn 1, []), (Fn 2, []), (Fn 4, [])])
   \<and> Fn 3 \<in> set (registered
         [Instance (Some 1) (Some 2), Plain [(''x'', 3)], Plain [], Array [Fn 2, Fn 3, Fn 4]]
         0 ''x'')
   \<and> (Fn 3, []) \<notin> set [(Fn 1, []), (Fn 2, []), (Fn 4, [] :: jsval list)]
   \<and> unbind_self_and_refire ''x'' 2 0 []
        [Instance (Some 1) (Some 2), Plain [(''x'', 3)], Plain [],
         Array [Null, Fn 2, Fn 3, Fn 4]]
     = Inr [Instance (Some 1) (Some 2), Plain [(''x'', 3)], Plain [],
            Array [Fn 2, Fn 3, Fn 4]]"
  by code_simp

text \<open>
  When the callbacks do nothing to the dispatcher but remove callbacks of \<open>e\<close>, the
  pass skips none and calls none twice. Let every callback \<open>f\<close>, when called, call
  \<^verbatim>\<open>this.unbind(e, g)\<close> for each \<open>g\<close> of a list \<open>rm f\<close> of its choice (itself,
  others, or none), and let \<open>e\<close> have a list, whose slots and those of the wildcard
  list are functions or tombstones. Then \<^verbatim>\<open>fire(e, ...args)\<close> returns the dispatcher.
  The callbacks \<open>cs\<close> it calls with \<open>args\<close> are a subsequence of the slots of \<open>e\<close>
  that were no tombstone: no slot is called twice and the order is kept. Restricted to
  the callbacks that no callback removes, \<open>cs\<close> is the whole list of these slots: none
  is skipped, and each such callback is called as often as it is registered. The same
  holds for the wildcard calls \<open>ws\<close>.
\<close>

lemma unbind_during_fire:
  assumes "well_formed h this" and "e \<noteq> []" and "list_ref h this e = Some a"
    and "list_all slot (registered h this e)"
    and "list_all slot (registered h this ALL_EVENT)"
  shows "\<exists>h' cs ws.
           trigger (remover rm e) h this e args
             = Inr (Obj this, h',
                 map (\<lambda>v. (v, args)) cs @ map (\<lambda>v. (v, Str e # args)) ws)
           \<and> subseq cs (active (registered h this e))
           \<and> filter (never_removed rm) cs
               = filter (never_removed rm) (active (registered h this e))
           \<and> (\<forall>g. never_removed rm (Fn g)
                  \<longrightarrow> count_list cs (Fn g) = count_list (registered h this e) (Fn g))
           \<and> subseq ws (active (registered h this ALL_EVENT))
           \<and> filter (never_removed rm) ws
               = filter (never_removed rm) (active (registered h this ALL_EVENT))"
proof -
  have K: "x \<notin> Fn ` set (rm f)" if "never_removed rm x" for f x
    using that by (simp add: never_removed_def)
  from trigger_remover [OF assms, of "never_removed rm" rm args, OF K]
  obtain h' cs ws where
    t: "trigger (remover rm e) h this e args
             = Inr (Obj this, h',
                 map (\<lambda>v. (v, args)) cs @ map (\<lambda>v. (v, Str e # args)) ws)"
    and s1: "subseq cs (active (registered h this e))"
    and f1: "filter (never_removed rm) cs
               = filter (never_removed rm) (active (registered h this e))"
    and s2: "subseq ws (active (registered h this ALL_EVENT))"
    and f2: "filter (never_removed rm) ws
               = filter (never_removed rm) (active (registered h this ALL_EVENT))"
    by blast
  have cnt: "\<forall>g. never_removed rm (Fn g)
                  \<longrightarrow> count_list cs (Fn g) = count_list (registered h this e) (Fn g)"
  proof (intro allI impI)
    fix g assume k: "never_removed rm (Fn g)"
    have "count_list cs (Fn g) = count_list (filter (never_removed rm) cs) (Fn g)"
      using k by (simp add: count_list_filter)
    also have "\<dots> = count_list (active (registered h this e)) (Fn g)"
      unfolding f1 using k by (simp add: count_list_filter)
    also have "\<dots> = count_list (registered h this e) (Fn g)"
      by (simp add: count_list_active)
    finally show "count_list cs (Fn g) = count_list (registered h this e) (Fn g)" .
  qed
  show ?thesis
    by (intro exI [of _ h'] exI [of _ cs] exI [of _ ws] conjI t s1 f1 cnt s2 f2)
qed

lemma unbind_during_fire_example:
  "well_formed
     [Instance (Some 1) (Some 2), Plain [(''x'', 3)], Plain [], Array [Fn 1, Fn 1, Fn 2, Fn 3]] 0
   \<and> ''x'' \<noteq> []
   \<and> list_ref
       [Instance (Some 1) (Some 2), Plain [(''x'', 3)], Plain [], Array [Fn 1, Fn 1, Fn 2, Fn 3]]
       0 ''x'' = Some 3
   \<and> list_all slot (registered
       [Instance (Some 1) (Some 2), Plain [(''x'', 3)], Plain [], Array [Fn 1, Fn 1, Fn 2, Fn 3]]
       0 ''x'')
   \<and> list_all slot (registered
       [Instance (Some 1) (Some 2), Plain [(''x'', 3)], Plain [], Array [Fn 1, Fn 1, Fn 2, Fn 3]]
       0 ALL_EVENT)
   \<and> trigger (remover (\<lambda>f. if f = 1 then [1] else []) ''x'')
       [Instance (Some 1) (Some 2), Plain [(''x'', 3)], Plain [], Array [Fn 1, Fn 1, Fn 2, Fn 3]]
       0 ''x'' [Num 7]
     = Inr (Obj 0,
         [Instance (Some 1) (Some 2), Plain [(''x'', 3)], Plain [], Array [Null, Fn 2, Fn 3]],
         [(Fn 1, [Num 7]), (Fn 2, [Num 7]), (Fn 3, [Num 7])])
   \<and> never_removed (\<lambda>f. if f = 1 then [1] else []) (Fn 2)
   \<and> (\<exists>h' cs ws.
         trigger (remover (\<lambda>f. if f = 1 then [1] else []) ''x'')
           [Instance (Some 1) (Some 2), Plain [(''x'', 3)], Plain [],
            Array [Fn 1, Fn 1, Fn 2, Fn 3]] 0 ''x'' [Num 7]
           = Inr (Obj 0, h',
               map (\<lambda>v. (v, [Num 7])) cs @ map (\<lambda>v. (v, [Str ''x'', Num 7])) ws)
         \<and> count_list cs (Fn 2) = 1)"
proof -
  let ?H = "[Instance (Some 1) (Some 2), Plain [(''x'', 3)], Plain [],
             Array [Fn 1, Fn 1, Fn 2, Fn 3]]"
  let ?rm = "\<lambda>f::nat. if f = 1 then [1::nat] else []"
  have wf: "well_formed ?H 0" by code_simp
  have ne: "''x'' \<noteq> []" by simp
  have lr: "list_ref ?H 0 ''x'' = Some 3" by code_simp
  have reg: "registered ?H 0 ''x'' = [Fn 1, Fn 1, Fn 2, Fn 3]" by code_simp
  have s1: "list_all slot (registered ?H 0 ''x'')" by code_simp
  have s2: "list_all slot (registered ?H 0 ALL_EVENT)" by code_simp
  have run: "trigger (remover ?rm ''x'') ?H 0 ''x'' [Num 7]
     = Inr (Obj 0,
         [Instance (Some 1) (Some 2), Plain [(''x'', 3)], Plain [], Array [Null, Fn 2, Fn 3]],
         [(Fn 1, [Num 7]), (Fn 2, [Num 7]), (Fn 3, [Num 7])])"
    by code_simp
  have nr: "never_removed ?rm (Fn 2)"
    by (auto simp: never_removed_def)
  from unbind_during_fire [OF wf ne lr s1 s2, of ?rm "[Num 7]"]
  obtain h' cs ws where
    t: "trigger (remover ?rm ''x'') ?H 0 ''x'' [Num 7]
           = Inr (Obj 0, h',
               map (\<lambda>v. (v, [Num 7])) cs @ map (\<lambda>v. (v, [Str ''x'', Num 7])) ws)"
    and cnt: "\<forall>g. never_removed ?rm (Fn g)
                  \<longrightarrow> count_list cs (Fn g) = count_list (registered ?H 0 ''x'') (Fn g)"
    by blast
  from cnt nr have "count_list cs (Fn 2) = count_list (registered ?H 0 ''x'') (Fn 2)"
    by blast
  then have c2: "count_list cs (Fn 2) = 1"
    unfolding reg by simp
  have ex: "\<exists>h' cs ws.
         trigger (remover ?rm ''x'') ?H 0 ''x'' [Num 7]
           = Inr (Obj 0, h',
               map (\<lambda>v. (v, [Num 7])) cs @ map (\<lambda>v. (v, [Str ''x'', Num 7])) ws)
         \<and> count_list cs (Fn 2) = 1"
    by (intro exI [of _ h'] exI [of _ cs] exI [of _ ws] conjI t c2)
  show ?thesis
    by (intro conjI wf ne lr s1 s2 run nr ex)
qed

section \<open>Head insertion\<close>

text \<open>
  C6. \<^verbatim>\<open>registerAtHead(e, cb)\<close> on a new dispatcher, where no callback was registered,
  with the event name \<^verbatim>\<open>constructor\<close>: line 87 finds the member that the
  registration object inherits, no list is made, and \<^verbatim>\<open>unshift\<close> of line 88 is no
  function of that member; the call ends with a \<^verbatim>\<open>TypeError\<close> for every \<open>cb\<close>, and
  \<open>cb\<close> is at position 0 of no list. That is the failure of \<^verbatim>\<open>register\<close> on the
  same input: for every heap, name and callback the two methods fail alike and return
  alike (second conjunct).
\<close>

theorem C6_headbind_inherited_name_throws:
  "headbind (snd (new_EventProxy [])) (fst (new_EventProxy [])) ''constructor'' cb
     = Inl TypeError
   \<and> map_sum id fst (headbind h this e cb) = map_sum id fst (addListener h this e cb)"
proof -
  have "new_EventProxy [] = (0, [Instance (Some 1) (Some 2), Plain [], Plain []])"
    by code_simp
  then have "headbind (snd (new_EventProxy [])) (fst (new_EventProxy [])) ''constructor'' cb
     = Inl TypeError"
    by (simp add: headbind_def callbacks_ref_def default_list_def plain_of_def get_prop_def
          object_prototype_def)
  then show ?thesis
    using headbind_addListener_outcome [of h this e cb cb] by simp
qed

text \<open>
  Outside the inherited names head insertion is as follows. On a well-formed
  dispatcher, for a name \<open>e\<close> that has a list or resolves to nothing,
  \<^verbatim>\<open>registerAtHead(e, cb)\<close> returns the dispatcher and leaves \<open>cb\<close> at position 0 of
  the list of \<open>e\<close>, before the former slots (the list is made when there was none), the
  other lists being as before. A later \<^verbatim>\<open>registerAtHead(e, cb2)\<close> puts \<open>cb2\<close> before
  \<open>cb\<close>. On the next fire of \<open>e\<close> that returns, with callbacks that leave the heap as
  it is, the first call is \<open>cb\<close> with the arguments of the fire. For every name, the
  two registration methods fail alike, return alike, and leave the same names with a
  list.
\<close>

lemma headbind_first:
  assumes "well_formed h this" and "\<not> inherited h this e"
  shows "(\<exists>h1. headbind h this e cb = Inr (Obj this, h1)
            \<and> registered h1 this e = cb # registered h this e
            \<and> (\<forall>e'. e' \<noteq> e \<longrightarrow> registered h1 this e' = registered h this e')
            \<and> (\<forall>cb2. \<exists>h2. headbind h1 this e cb2 = Inr (Obj this, h2)
                  \<and> registered h2 this e = cb2 # cb # registered h this e)
            \<and> (\<forall>beh args r h' tr.
                  truthy cb \<and> non_reentrant beh this
                  \<and> trigger beh h1 this e args = Inr (r, h', tr)
                  \<longrightarrow> tr \<noteq> [] \<and> hd tr = (cb, args)
                      \<and> take (length (active (cb # registered h this e))) tr
                          = map (\<lambda>v. (v, args)) (cb # active (registered h this e))))
       \<and> map_sum id fst (headbind h this e cb) = map_sum id fst (addListener h this e cb)
       \<and> (\<forall>e'. map_sum id (\<lambda>s. list_ref (snd s) this e') (headbind h this e cb)
                = map_sum id (\<lambda>s. list_ref (snd s) this e') (addListener h this e cb))"
proof -
  from headbind_effect [OF assms, of cb] obtain h1 where
    hb: "headbind h this e cb = Inr (Obj this, h1)" and wf1: "well_formed h1 this"
    and reg1: "registered h1 this e = cb # registered h this e"
    and oth1: "\<forall>e'. e' \<noteq> e \<longrightarrow> registered h1 this e' = registered h this e'"
    by blast
  have ni1: "\<not> inherited h1 this e"
    using reg1 by (intro not_inherited_registered) simp
  have again: "\<exists>h2. headbind h1 this e cb2 = Inr (Obj this, h2)
                  \<and> registered h2 this e = cb2 # cb # registered h this e" for cb2
    using headbind_effect [OF wf1 ni1, of cb2] reg1 by auto
  have fire: "tr \<noteq> [] \<and> hd tr = (cb, args)
                \<and> take (length (active (cb # registered h this e))) tr
                    = map (\<lambda>v. (v, args)) (cb # active (registered h this e))"
    if t: "truthy cb" and nr: "non_reentrant beh this"
      and run: "trigger beh h1 this e args = Inr (r, h', tr)"
    for beh args r h' tr
    unfolding trigger_quiet(2) [OF nr run] reg1 using t by (simp add: active_def)
  have out: "map_sum id fst (headbind h this e cb) = map_sum id fst (addListener h this e cb)"
    by (rule headbind_addListener_outcome)
  have refs: "map_sum id (\<lambda>s. list_ref (snd s) this e') (headbind h this e cb)
                = map_sum id (\<lambda>s. list_ref (snd s) this e') (addListener h this e cb)" for e'
    by (simp add: headbind_def addListener_def push_def unshift_def
             split: option.splits prod.splits property.splits)
  have fire': "\<forall>beh args r h' tr.
                  truthy cb \<and> non_reentrant beh this
                  \<and> trigger beh h1 this e args = Inr (r, h', tr)
                  \<longrightarrow> tr \<noteq> [] \<and> hd tr = (cb, args)
                      \<and> take (length (active (cb # registered h this e))) tr
                          = map (\<lambda>v. (v, args)) (cb # active (registered h this e))"
    by (intro allI impI, elim conjE, rule fire)
  have again': "\<forall>cb2. \<exists>h2. headbind h1 this e cb2 = Inr (Obj this, h2)
                  \<and> registered h2 this e = cb2 # cb # registered h this e"
    by (intro allI, rule again)
  have refs': "\<forall>e'. map_sum id (\<lambda>s. list_ref (snd s) this e') (headbind h this e cb)
                = map_sum id (\<lambda>s. list_ref (snd s) this e') (addListener h this e cb)"
    by (intro allI, rule refs)
  show ?thesis
    by (intro conjI exI [of _ h1] hb reg1 oth1 again' fire' out refs')
qed

lemma headbind_first_example:
  "well_formed
     [Instance (Some 1) (Some 2), Plain [(''x'', 3)], Plain [], Array [Fn 5, Fn 6]] 0
   \<and> \<not> inherited
     [Instance (Some 1) (Some 2), Plain [(''x'', 3)], Plain [], Array [Fn 5, Fn 6]] 0 ''x''
   \<and> headbind
       [Instance (Some 1) (Some 2), Plain [(''x'', 3)], Plain [], Array [Fn 5, Fn 6]]
       0 ''x'' (Fn 8)
     = Inr (Obj 0,
         [Instance (Some 1) (Some 2), Plain [(''x'', 3)], Plain [], Array [Fn 8, Fn 5, Fn 6]])
   \<and> trigger (\<lambda>f this args h. Inr h)
       [Instance (Some 1) (Some 2), Plain [(''x'', 3)], Plain [], Array [Fn 8, Fn 5, Fn 6]]
       0 ''x'' [Num 1]
     = Inr (Obj 0,
         [Instance (Some 1) (Some 2), Plain [(''x'', 3)], Plain [], Array [Fn 8, Fn 5, Fn 6]],
         [(Fn 8, [Num 1]), (Fn 5, [Num 1]), (Fn 6, [Num 1])])
   \<and> map_sum id fst (headbind
       [Instance (Some 1) (Some 2), Plain [(''x'', 3)], Plain [], Array [Fn 5, Fn 6]]
       0 ''x'' (Fn 8))
     = map_sum id fst (addListener
       [Instance (Some 1) (Some 2), Plain [(''x'', 3)], Plain [], Array [Fn 5, Fn 6]]
       0 ''x'' (Fn 8))"
proof -
  have wf: "well_formed
     [Instance (Some 1) (Some 2), Plain [(''x'', 3)], Plain [], Array [Fn 5, Fn 6]] 0"
    by code_simp
  have ni: "\<not> inherited
     [Instance (Some 1) (Some 2), Plain [(''x'', 3)], Plain [], Array [Fn 5, Fn 6]] 0 ''x''"
    by code_simp
  have hb: "headbind
       [Instance (Some 1) (Some 2), Plain [(''x'', 3)], Plain [], Array [Fn 5, Fn 6]]
       0 ''x'' (Fn 8)
     = Inr (Obj 0,
         [Instance (Some 1) (Some 2), Plain [(''x'', 3)], Plain [], Array [Fn 8, Fn 5, Fn 6]])"
    by code_simp
  have run: "trigger (\<lambda>f this args h. Inr h)
       [Instance (Some 1) (Some 2), Plain [(''x'', 3)], Plain [], Array [Fn 8, Fn 5, Fn 6]]
       0 ''x'' [Num 1]
     = Inr (Obj 0,
         [Instance (Some 1) (Some 2), Plain [(''x'', 3)], Plain [], Array [Fn 8, Fn 5, Fn 6]],
         [(Fn 8, [Num 1]), (Fn 5, [Num 1]), (Fn 6, [Num 1])])"
    by code_simp
  note out = headbind_first [OF wf ni, of "Fn 8", THEN conjunct2, THEN conjunct1]
  show ?thesis
    by (intro conjI wf ni hb run out)
qed

section \<open>Names that were never registered\<close>

text \<open>
  C7, as the claim states it, fails: on a new dispatcher, where \<^verbatim>\<open>x\<close> was never
  registered, \<^verbatim>\<open>unregister('x')\<close> does not leave the state as it was. Line 108 makes
  an empty list and stores it under the name.
\<close>

theorem C7_unregister_unknown_changes_state_counterexample:
  "callbacks_get [Instance (Some 1) (Some 2), Plain [], Plain []] 0 ''x'' = Absent
   \<and> removeListener [Instance (Some 1) (Some 2), Plain [], Plain []] 0 (Some ''x'') Undefined
     = Inr (Obj 0, [Instance (Some 1) (Some 2), Plain [(''x'', 3)], Plain [], Array []])
   \<and> [Instance (Some 1) (Some 2), Plain [(''x'', 3)], Plain [], Array []]
     \<noteq> [Instance (Some 1) (Some 2), Plain [], Plain []]"
  by code_simp

text \<open>
  C7, amended. On a well-formed dispatcher, for a non-empty name \<open>e\<close> that resolves to
  nothing: \<^verbatim>\<open>fire(e, ...args)\<close> does in its first turn nothing, so that it is the
  wildcard turn alone, and when the wildcard name resolves to nothing as well it
  returns the dispatcher with the heap as it was and no call made;
  \<^verbatim>\<open>unregister(e, cb)\<close> with a truthy \<open>cb\<close> returns the dispatcher with the heap as it
  was; \<^verbatim>\<open>unregister(e)\<close> returns the dispatcher and leaves the slots of every name as
  they were, and \<open>e\<close> with a new, empty list.
\<close>

theorem C7_unknown_event:
  assumes "well_formed h this" and "callbacks_get h this e = Absent" and "e \<noteq> []"
  shows "(\<exists>c. callbacks_ref h this = Some c
            \<and> trigger beh h this e args
                = (case trigger_pass beh this c ALL_EVENT (Str e # args) (h, []) of
                     Inl err \<Rightarrow> Inl err
                   | Inr (h2, tr) \<Rightarrow> Inr (Obj this, h2, tr)))
       \<and> (callbacks_get h this ALL_EVENT = Absent
            \<longrightarrow> trigger beh h this e args = Inr (Obj this, h, []))
       \<and> (truthy cb \<longrightarrow> removeListener h this (Some e) cb = Inr (Obj this, h))
       \<and> (\<not> truthy cb \<longrightarrow>
            (\<exists>h1. removeListener h this (Some e) cb = Inr (Obj this, h1)
               \<and> (\<forall>e'. registered h1 this e' = registered h this e')
               \<and> list_ref h this e = None \<and> list_ref h1 this e = Some (length h)))"
proof -
  from assms(1) obtain c d where c: "callbacks_ref h this = Some c"
    and d: "plain_of h c = Some d" and arr: "list_all (is_array h) (map snd d)"
    by (rule well_formedD)
  from assms(2) c d have abs: "get_prop d e = Absent"
    by (simp add: callbacks_get_def)
  have p1: "trigger_pass beh this c e args (h, []) = Inr (h, [])"
    using d abs by (simp add: trigger_pass_def)
  have t: "trigger beh h this e args
             = (case trigger_pass beh this c ALL_EVENT (Str e # args) (h, []) of
                  Inl err \<Rightarrow> Inl err
                | Inr (h2, tr) \<Rightarrow> Inr (Obj this, h2, tr))"
    using c p1 by (simp add: trigger_def)
  have t0: "trigger beh h this e args = Inr (Obj this, h, [])"
    if "callbacks_get h this ALL_EVENT = Absent"
    using that c d unfolding t by (simp add: callbacks_get_def trigger_pass_def)
  have r1: "removeListener h this (Some e) cb = Inr (Obj this, h)" if "truthy cb"
    using removeListener_tombstones [OF c d assms(3) that] abs by simp
  have r2: "\<exists>h1. removeListener h this (Some e) cb = Inr (Obj this, h1)
               \<and> (\<forall>e'. registered h1 this e' = registered h this e')
               \<and> list_ref h this e = None \<and> list_ref h1 this e = Some (length h)"
    if f: "\<not> truthy cb"
  proof -
    note cl = removeListener_clears [OF c d arr assms(3) f]
    have none: "list_ref h this e = None" "registered h this e = []"
      using c d abs by (simp_all add: list_ref_def registered_def)
    have "registered ((h @ [Array []])[c := Plain (set_prop d e (length h))]) this e'
            = registered h this e'" for e'
      using cl(3,5) none by (cases "e' = e") simp_all
    with cl(1,2) none show ?thesis by blast
  qed
  from c t t0 r1 r2 show ?thesis by blast
qed

theorem C7_unknown_event_witness:
  "well_formed
     [Instance (Some 1) (Some 2), Plain [(''__all__'', 3)], Plain [], Array [Fn 4]] 0
   \<and> callbacks_get
     [Instance (Some 1) (Some 2), Plain [(''__all__'', 3)], Plain [], Array [Fn 4]] 0 ''x''
     = Absent
   \<and> ''x'' \<noteq> [] \<and> truthy (Fn 5)
   \<and> removeListener
       [Instance (Some 1) (Some 2), Plain [(''__all__'', 3)], Plain [], Array [Fn 4]]
       0 (Some ''x'') (Fn 5)
     = Inr (Obj 0,
         [Instance (Some 1) (Some 2), Plain [(''__all__'', 3)], Plain [], Array [Fn 4]])
   \<and> trigger (\<lambda>f this args h. Inr h)
       [Instance (Some 1) (Some 2), Plain [(''__all__'', 3)], Plain [], Array [Fn 4]]
       0 ''x'' [Num 1]
     = Inr (Obj 0,
         [Instance (Some 1) (Some 2), Plain [(''__all__'', 3)], Plain [], Array [Fn 4]],
         [(Fn 4, [Str ''x'', Num 1])])"
proof -
  have wf: "well_formed
     [Instance (Some 1) (Some 2), Plain [(''__all__'', 3)], Plain [], Array [Fn 4]] 0"
    by code_simp
  have abs: "callbacks_get
     [Instance (Some 1) (Some 2), Plain [(''__all__'', 3)], Plain [], Array [Fn 4]] 0 ''x''
     = Absent"
    by code_simp
  have ne: "''x'' \<noteq> []" by simp
  have t: "truthy (Fn 5)" by simp
  have run: "trigger (\<lambda>f this args h. Inr h)
       [Instance (Some 1) (Some 2), Plain [(''__all__'', 3)], Plain [], Array [Fn 4]]
       0 ''x'' [Num 1]
     = Inr (Obj 0,
         [Instance (Some 1) (Some 2), Plain [(''__all__'', 3)], Plain [], Array [Fn 4]],
         [(Fn 4, [Str ''x'', Num 1])])"
    by code_simp
  note rm = C7_unknown_event [OF wf abs ne, of _ _ "Fn 5", THEN conjunct2, THEN conjunct2,
      THEN conjunct1, THEN mp, OF t]
  show ?thesis
    by (intro conjI wf abs ne t rm run)
qed

section \<open>Properties of the wildcard wrappers\<close>

text \<open>
  C8, as the claim states it, fails on a new dispatcher: \<^verbatim>\<open>bindForAll(cb)\<close> leaves
  the state that \<^verbatim>\<open>register(wildcardName, cb)\<close> leaves, but its value is
  \<^verbatim>\<open>undefined\<close>, not the dispatcher.
\<close>

theorem C8_bindForAll_result_counterexample:
  "bindForAll [Instance (Some 1) (Some 2), Plain [], Plain []] 0 (Fn 7)
     = Inr (Undefined,
            [Instance (Some 1) (Some 2), Plain [(''__all__'', 3)], Plain [], Array [Fn 7]])
   \<and> addListener [Instance (Some 1) (Some 2), Plain [], Plain []] 0 ALL_EVENT (Fn 7)
     = Inr (Obj 0,
            [Instance (Some 1) (Some 2), Plain [(''__all__'', 3)], Plain [], Array [Fn 7]])
   \<and> bindForAll [Instance (Some 1) (Some 2), Plain [], Plain []] 0 (Fn 7)
     \<noteq> addListener [Instance (Some 1) (Some 2), Plain [], Plain []] 0 ALL_EVENT (Fn 7)"
  by code_simp

text \<open>
  C8, amended. \<^verbatim>\<open>bindForAll(cb)\<close> fails where \<^verbatim>\<open>register(wildcardName, cb)\<close>
  fails and otherwise leaves the same state, and \<^verbatim>\<open>unbindForAll(cb)\<close> does so
  with respect to \<^verbatim>\<open>unregister(wildcardName, cb)\<close>; the value of both wrappers is
  \<^verbatim>\<open>undefined\<close> where the method returns the dispatcher.
\<close>

theorem C8_wrappers_same_state_undefined_result:
  "map_sum id snd (bindForAll h this cb) = map_sum id snd (addListener h this ALL_EVENT cb)
   \<and> map_sum id fst (bindForAll h this cb)
       = map_sum id (\<lambda>r. Undefined) (addListener h this ALL_EVENT cb)
   \<and> map_sum id snd (unbindForAll h this cb)
       = map_sum id snd (removeListener h this (Some ALL_EVENT) cb)
   \<and> map_sum id fst (unbindForAll h this cb)
       = map_sum id (\<lambda>r. Undefined) (removeListener h this (Some ALL_EVENT) cb)"
  by (simp add: bindForAll_def unbindForAll_def split: sum.splits prod.splits)

section \<open>Falsy arguments of removal\<close>

text \<open>
  C9. The branches of \<^verbatim>\<open>unregister\<close> are chosen by \<^verbatim>\<open>!eventname\<close> and
  \<^verbatim>\<open>!callback\<close>: with the empty string as the event name the call does what it does
  with no event name, whatever the callback; on a well-formed dispatcher that is the
  full reset, after which no name has a list. A falsy callback does what a callback
  left out does.
\<close>

theorem C9_unregister_empty_name_resets:
  "removeListener h this (Some []) cb = removeListener h this None cb
   \<and> (well_formed h this \<longrightarrow>
        (\<exists>h1 c1. removeListener h this (Some []) cb = Inr (Obj this, h1)
           \<and> callbacks_ref h1 this = Some c1 \<and> plain_of h1 c1 = Some []
           \<and> (\<forall>e'. list_ref h1 this e' = None \<and> registered h1 this e' = [])))
   \<and> (\<not> truthy cb \<longrightarrow>
        removeListener h this (Some e) cb = removeListener h this (Some e) Undefined)"
proof -
  have a: "removeListener h this (Some []) cb = removeListener h this None cb"
    by (simp add: removeListener_def split: obj.splits)
  have b: "\<exists>h1 c1. removeListener h this (Some []) cb = Inr (Obj this, h1)
           \<and> callbacks_ref h1 this = Some c1 \<and> plain_of h1 c1 = Some []
           \<and> (\<forall>e'. list_ref h1 this e' = None \<and> registered h1 this e' = [])"
    if "well_formed h this"
  proof -
    from that obtain c where c: "callbacks_ref h this = Some c" by (rule well_formedD)
    from removeListener_reset [OF c, of "Some []" cb] show ?thesis by auto
  qed
  have c: "removeListener h this (Some e) cb = removeListener h this (Some e) Undefined"
    if "\<not> truthy cb"
    using that by (simp add: removeListener_def split: obj.splits option.splits)
  from a b c show ?thesis by blast
qed

theorem C9_unregister_empty_name_resets_witness:
  "well_formed
     [Instance (Some 1) (Some 2), Plain [(''x'', 3), (''y'', 4)], Plain [],
      Array [Fn 5, Fn 6, Fn 5], Array [Fn 5]] 0
   \<and> \<not> truthy (Str [])
   \<and> removeListener
       [Instance (Some 1) (Some 2), Plain [(''x'', 3), (''y'', 4)], Plain [],
        Array [Fn 5, Fn 6, Fn 5], Array [Fn 5]] 0 (Some []) (Fn 5)
     = Inr (Obj 0,
        [Instance (Some 5) (Some 2), Plain [(''x'', 3), (''y'', 4)], Plain [],
         Array [Fn 5, Fn 6, Fn 5], Array [Fn 5], Plain []])
   \<and> registered
        [Instance (Some 5) (Some 2), Plain [(''x'', 3), (''y'', 4)], Plain [],
         Array [Fn 5, Fn 6, Fn 5], Array [Fn 5], Plain []] 0 ''y'' = []
   \<and> removeListener
       [Instance (Some 1) (Some 2), Plain [(''x'', 3), (''y'', 4)], Plain [],
        Array [Fn 5, Fn 6, Fn 5], Array [Fn 5]] 0 (Some ''x'') (Str [])
     = removeListener
       [Instance (Some 1) (Some 2), Plain [(''x'', 3), (''y'', 4)], Plain [],
        Array [Fn 5, Fn 6, Fn 5], Array [Fn 5]] 0 (Some ''x'') Undefined"
proof -
  have wf: "well_formed
     [Instance (Some 1) (Some 2), Plain [(''x'', 3), (''y'', 4)], Plain [],
      Array [Fn 5, Fn 6, Fn 5], Array [Fn 5]] 0"
    by code_simp
  have run: "removeListener
       [Instance (Some 1) (Some 2), Plain [(''x'', 3), (''y'', 4)], Plain [],
        Array [Fn 5, Fn 6, Fn 5], Array [Fn 5]] 0 (Some []) (Fn 5)
     = Inr (Obj 0,
        [Instance (Some 5) (Some 2), Plain [(''x'', 3), (''y'', 4)], Plain [],
         Array [Fn 5, Fn 6, Fn 5], Array [Fn 5], Plain []])"
    by code_simp
  have fy: "\<not> truthy (Str [])" by simp
  have reg: "registered
        [Instance (Some 5) (Some 2), Plain [(''x'', 3), (''y'', 4)], Plain [],
         Array [Fn 5, Fn 6, Fn 5], Array [Fn 5], Plain []] 0 ''y'' = []"
    by code_simp
  note falsy = C9_unregister_empty_name_resets
         [of "[Instance (Some 1) (Some 2), Plain [(''x'', 3), (''y'', 4)], Plain [],
               Array [Fn 5, Fn 6, Fn 5], Array [Fn 5]]" 0 "Str []" "''x''",
          THEN conjunct2, THEN conjunct2, THEN mp, OF fy]
  show ?thesis
    by (intro conjI wf fy run reg falsy)
qed

section \<open>Construction with and without \<^verbatim>\<open>new\<close>\<close>

text \<open>
  C10. Called with a \<^verbatim>\<open>this\<close> that is no instance, as a plain call is, the function
  returns the object that \<^verbatim>\<open>new EventProxy()\<close> makes on the same heap and leaves the
  same heap. That object is new (its reference is the first free one, the objects that
  were there are as before), it is an instance, and its registration object has no
  property: no name has a list.
\<close>

theorem C10_call_without_new:
  assumes "\<not> instanceof_EventProxy h this"
  shows "EventProxy h this = (Obj (fst (new_EventProxy h)), snd (new_EventProxy h))
       \<and> fst (new_EventProxy h) = length h
       \<and> take (length h) (snd (new_EventProxy h)) = h
       \<and> instanceof_EventProxy (snd (new_EventProxy h)) (Obj (fst (new_EventProxy h)))
       \<and> (\<exists>c. callbacks_ref (snd (new_EventProxy h)) (fst (new_EventProxy h)) = Some c
              \<and> plain_of (snd (new_EventProxy h)) c = Some [])
       \<and> well_formed (snd (new_EventProxy h)) (fst (new_EventProxy h))
       \<and> (\<forall>e. registered (snd (new_EventProxy h)) (fst (new_EventProxy h)) e = [])"
proof -
  let ?h = "h @ [Instance (Some (length h + 1)) (Some (length h + 2)), Plain [], Plain []]"
  have c: "callbacks_ref ?h (length h) = Some (length h + 1)"
    by (simp add: callbacks_ref_def nth_append)
  have d: "plain_of ?h (length h + 1) = Some []"
    by (simp add: plain_of_def nth_append)
  have "EventProxy h this = (Obj (length h), ?h)"
    using assms by (simp add: EventProxy_def new_EventProxy_eq)
  moreover have "instanceof_EventProxy ?h (Obj (length h))"
    by (simp add: instanceof_EventProxy_def nth_append)
  moreover have "well_formed ?h (length h)"
    using c d by (simp add: well_formed_def)
  moreover have "\<forall>e. registered ?h (length h) e = []"
    using c d by (simp add: registered_def list_ref_def get_prop_def split: option.splits)
  ultimately show ?thesis
    using c d by (simp add: new_EventProxy_eq)
qed

theorem C10_call_without_new_witness:
  "\<not> instanceof_EventProxy [] Undefined
   \<and> EventProxy [] Undefined = (Obj 0, [Instance (Some 1) (Some 2), Plain [], Plain []])
   \<and> new_EventProxy [] = (0, [Instance (Some 1) (Some 2), Plain [], Plain []])"
proof -
  have ni: "\<not> instanceof_EventProxy [] Undefined"
    by (simp add: instanceof_EventProxy_def)
  have new: "new_EventProxy [] = (0, [Instance (Some 1) (Some 2), Plain [], Plain []])"
    by (simp add: new_EventProxy_eq)
  from C10_call_without_new [OF ni] new show ?thesis
    using ni by simp
qed

end
